theory Spec2Isabelle
  imports Main
begin

section \<open>Text\<close>

text \<open>
  A Python \<open>str\<close> is a sequence of code points. The development keeps texts as
  \<open>string\<close> and reads a \<open>char\<close> as the code point of the same number, so it covers
  the texts whose code points lie below 256. On that range the three character tests
  below are exactly the ones \<open>str.split\<close>, \<open>str.strip\<close>, \<open>str.lower\<close> and the
  \<open>re\<close> module apply.
\<close>

definition is_space :: "char \<Rightarrow> bool" where
  \<comment> \<open>\<open>str.isspace\<close>, also what \<open>\s\<close>, \<open>split()\<close> and \<open>strip()\<close> take as whitespace\<close>
  "is_space c = ((of_char c :: nat) \<in> {9, 10, 11, 12, 13, 28, 29, 30, 31, 32, 133, 160})"

definition is_digit :: "char \<Rightarrow> bool" where
  \<comment> \<open>\<open>\d\<close>\<close>
  "is_digit c = (48 \<le> (of_char c :: nat) \<and> (of_char c :: nat) \<le> 57)"

definition is_upper :: "char \<Rightarrow> bool" where
  \<comment> \<open>\<open>[A-Z]\<close>\<close>
  "is_upper c = (65 \<le> (of_char c :: nat) \<and> (of_char c :: nat) \<le> 90)"

definition is_lower :: "char \<Rightarrow> bool" where
  \<comment> \<open>\<open>[a-z]\<close>\<close>
  "is_lower c = (97 \<le> (of_char c :: nat) \<and> (of_char c :: nat) \<le> 122)"

definition is_letter :: "char \<Rightarrow> bool" where
  \<comment> \<open>\<open>[a-zA-Z]\<close>, and \<open>[A-Z]\<close> under \<open>re.IGNORECASE\<close>\<close>
  "is_letter c = (is_upper c \<or> is_lower c)"

definition lower_char :: "char \<Rightarrow> char" where
  "lower_char c =
     (let n = (of_char c :: nat)
      in if (65 \<le> n \<and> n \<le> 90) \<or> (192 \<le> n \<and> n \<le> 222 \<and> n \<noteq> 215)
         then char_of (n + 32) else c)"

definition lower :: "string \<Rightarrow> string" where
  \<comment> \<open>\<open>str.lower\<close>\<close>
  "lower s = map lower_char s"

definition upper_char :: "char \<Rightarrow> char" where
  "upper_char c = (if is_lower c then char_of ((of_char c :: nat) - 32) else c)"

definition upper :: "string \<Rightarrow> string" where
  \<comment> \<open>\<open>str.upper\<close> on the characters a postcode match is made of (ASCII letters,
      digits, whitespace): the program applies it to nothing else\<close>
  "upper s = map upper_char s"

definition strip :: "string \<Rightarrow> string" where
  \<comment> \<open>\<open>str.strip()\<close>\<close>
  "strip s = rev (dropWhile is_space (rev (dropWhile is_space s)))"

fun split :: "string \<Rightarrow> string list" where
  \<comment> \<open>\<open>str.split()\<close>: the maximal runs of non-whitespace characters\<close>
  "split [] = []"
| "split (c # cs) =
     (if is_space c then split cs
      else (case split cs of
              [] \<Rightarrow> [[c]]
            | w # ws \<Rightarrow> (if cs \<noteq> [] \<and> \<not> is_space (hd cs) then (c # w) # ws
                         else [c] # w # ws)))"

fun join :: "string \<Rightarrow> string list \<Rightarrow> string" where
  \<comment> \<open>\<open>sep.join(xs)\<close>\<close>
  "join sep [] = []"
| "join sep [x] = x"
| "join sep (x # y # ys) = x @ sep @ join sep (y # ys)"

definition clean_text :: "string \<Rightarrow> string" where
  \<comment> \<open>\<open>_clean_text\<close>\<close>
  "clean_text text = (if text = [] then [] else strip (join '' '' (split text)))"

fun py_in :: "string \<Rightarrow> string \<Rightarrow> bool" where
  \<comment> \<open>\<open>x in s\<close> on strings: \<open>x\<close> occurs in \<open>s\<close> as a contiguous piece\<close>
  "py_in x [] = (x = [])"
| "py_in x (c # cs) = (take (length x) (c # cs) = x \<or> py_in x cs)"

section \<open>Regular expressions\<close>

text \<open>
  Every pattern of the program is a sequence of pieces, each a bounded or unbounded
  greedy repetition of one character class, or a choice between literal texts. \<open>re\<close>
  matches such a sequence by backtracking: a repetition first takes as many characters
  as it can and gives them back one at a time while the rest of the pattern fails; a
  choice tries its alternatives from left to right. A match is reported as the list of
  the lengths its pieces consumed.
\<close>

datatype atom =
    Rep "char \<Rightarrow> bool" nat "nat option"   \<comment> \<open>class, least and greatest count (\<open>None\<close>: unbounded)\<close>
  | Lits "string list"                    \<comment> \<open>\<open>(?:a|b|...)\<close> over literal texts\<close>

definition greedy :: "(char \<Rightarrow> bool) \<Rightarrow> nat option \<Rightarrow> string \<Rightarrow> nat" where
  "greedy c hi s =
     (let n = length (takeWhile c s) in case hi of None \<Rightarrow> n | Some h \<Rightarrow> min h n)"

primrec try_down :: "(nat \<Rightarrow> 'a option) \<Rightarrow> nat \<Rightarrow> nat \<Rightarrow> 'a option" where
  "try_down f lo 0 = (if lo = 0 then f 0 else None)"
| "try_down f lo (Suc k) =
     (if Suc k < lo then None
      else (case f (Suc k) of Some r \<Rightarrow> Some r | None \<Rightarrow> try_down f lo k))"

primrec first_some :: "('b \<Rightarrow> 'a option) \<Rightarrow> 'b list \<Rightarrow> 'a option" where
  "first_some f [] = None"
| "first_some f (x # xs) = (case f x of Some r \<Rightarrow> Some r | None \<Rightarrow> first_some f xs)"

primrec match_here :: "atom list \<Rightarrow> string \<Rightarrow> nat list option" where
  \<comment> \<open>the match of the pattern at the very start of the text, if there is one\<close>
  "match_here [] = (\<lambda>s. Some [])"
| "match_here (a # as) = (\<lambda>s.
     case a of
       Rep c lo hi \<Rightarrow>
         try_down (\<lambda>k. map_option (Cons k) (match_here as (drop k s))) lo (greedy c hi s)
     | Lits ls \<Rightarrow>
         first_some (\<lambda>l. if take (length l) s = l
                           then map_option (Cons (length l)) (match_here as (drop (length l) s))
                           else None) ls)"

fun re_search :: "atom list \<Rightarrow> string \<Rightarrow> (string \<times> nat list) option" where
  \<comment> \<open>\<open>re.search\<close>: the leftmost match, given as the text from its first character
      on and the lengths of its pieces\<close>
  "re_search p [] = map_option (Pair []) (match_here p [])"
| "re_search p (c # cs) =
     (case match_here p (c # cs) of
        Some ns \<Rightarrow> Some (c # cs, ns)
      | None \<Rightarrow> re_search p cs)"

definition group0 :: "string \<times> nat list \<Rightarrow> string" where
  \<comment> \<open>\<open>match.group()\<close>\<close>
  "group0 m = take (sum_list (snd m)) (fst m)"

definition pieces :: "string \<times> nat list \<Rightarrow> nat \<Rightarrow> nat \<Rightarrow> string" where
  \<comment> \<open>the text of a group that spans the pieces \<open>i\<close> up to, not including, \<open>j\<close>\<close>
  "pieces m i j =
     take (sum_list (take j (snd m)) - sum_list (take i (snd m)))
          (drop (sum_list (take i (snd m))) (fst m))"

fun findall_from :: "atom list \<Rightarrow> nat \<Rightarrow> string \<Rightarrow> string list" where
  \<comment> \<open>\<open>skip\<close> counts the characters that still belong to the match found last\<close>
  "findall_from p skip [] = []"
| "findall_from p (Suc skip) (c # cs) = findall_from p skip cs"
| "findall_from p 0 (c # cs) =
     (case match_here p (c # cs) of
        Some ns \<Rightarrow> take (sum_list ns) (c # cs) # findall_from p (sum_list ns - 1) cs
      | None \<Rightarrow> findall_from p 0 cs)"

definition findall :: "atom list \<Rightarrow> string \<Rightarrow> string list" where
  \<comment> \<open>\<open>re.findall\<close> for a pattern without groups whose matches are never empty:
      the matches met from left to right, none overlapping the one before\<close>
  "findall p s = findall_from p 0 s"

text \<open>The texts a pattern describes, without regard to how a matcher finds them.\<close>

fun atom_ok :: "atom \<Rightarrow> string \<Rightarrow> bool" where
  "atom_ok (Rep c lo hi) u =
     (list_all c u \<and> lo \<le> length u \<and> (case hi of None \<Rightarrow> True | Some h \<Rightarrow> length u \<le> h))"
| "atom_ok (Lits ls) u = (u \<in> set ls)"

primrec accepts :: "atom list \<Rightarrow> string \<Rightarrow> bool" where
  "accepts [] = (\<lambda>s. s = [])"
| "accepts (a # as) = (\<lambda>s.
     list_ex (\<lambda>k. atom_ok a (take k s) \<and> accepts as (drop k s)) [0 ..< Suc (length s)])"

definition matches_at :: "atom list \<Rightarrow> string \<Rightarrow> nat \<Rightarrow> bool" where
  \<comment> \<open>some piece of the text that starts at position \<open>i\<close> is described by the pattern\<close>
  "matches_at p s i =
     (i \<le> length s \<and> list_ex (\<lambda>n. accepts p (take n (drop i s))) [0 ..< Suc (length s - i)])"

section \<open>The text extractors\<close>

definition postcode_pattern :: "atom list" where
  \<comment> \<open>\<open>[A-Z]{1,2}\d[A-Z\d]?\s*\d[A-Z]{2}\<close> under \<open>re.IGNORECASE\<close>\<close>
  "postcode_pattern =
     [Rep is_letter 1 (Some 2), Rep is_digit 1 (Some 1),
      Rep (\<lambda>c. is_letter c \<or> is_digit c) 0 (Some 1), Rep is_space 0 None,
      Rep is_digit 1 (Some 1), Rep is_letter 2 (Some 2)]"

definition extract_uk_postcode :: "string \<Rightarrow> string" where
  "extract_uk_postcode text =
     (case re_search postcode_pattern text of
        Some m \<Rightarrow> upper (group0 m)
      | None \<Rightarrow> [])"

definition local_char :: "char \<Rightarrow> bool" where
  \<comment> \<open>\<open>[a-zA-Z0-9._%+-]\<close>\<close>
  "local_char c = (is_letter c \<or> is_digit c \<or> c \<in> set ''._%+-'')"

definition domain_char :: "char \<Rightarrow> bool" where
  \<comment> \<open>\<open>[a-zA-Z0-9.-]\<close>\<close>
  "domain_char c = (is_letter c \<or> is_digit c \<or> c \<in> set ''.-'')"

definition email_pattern :: "atom list" where
  \<comment> \<open>\<open>[a-zA-Z0-9._%+-]+@[a-zA-Z0-9.-]+\.[a-zA-Z]{2,}\<close>\<close>
  "email_pattern =
     [Rep local_char 1 None, Rep (\<lambda>c. c = CHR ''@'') 1 (Some 1), Rep domain_char 1 None,
      Rep (\<lambda>c. c = CHR ''.'') 1 (Some 1), Rep is_letter 2 None]"

definition noise_markers :: "string list" where
  "noise_markers = [''example.'', ''domain.'', ''email.'', ''.png'', ''.jpg'', ''.gif'', ''sentry.io'']"

definition is_noise :: "string \<Rightarrow> bool" where
  \<comment> \<open>\<open>any(x in e.lower() for x in [...])\<close>\<close>
  "is_noise e = list_ex (\<lambda>x. py_in x (lower e)) noise_markers"

definition filtered_emails :: "string \<Rightarrow> string list" where
  \<comment> \<open>the list \<open>filtered\<close> of \<open>_extract_emails\<close>\<close>
  "filtered_emails text = filter (\<lambda>e. \<not> is_noise e) (findall email_pattern text)"

definition extract_emails :: "string \<Rightarrow> string list \<Rightarrow> bool" where
  \<comment> \<open>\<open>_extract_emails\<close> returns \<open>list(set(filtered))\<close>. Python leaves the order in which a
      set is listed open, so the model says which lists the call may return: those that
      hold the members of the set, each once.\<close>
  "extract_emails text ys = (distinct ys \<and> set ys = set (filtered_emails text))"

definition phone_sep :: "char \<Rightarrow> bool" where
  \<comment> \<open>\<open>[\s.-]\<close>\<close>
  "phone_sep c = (is_space c \<or> c \<in> set ''.-'')"

definition phone_patterns :: "atom list list" where
  "phone_patterns =
     [[Lits [''+44'', ''0''], Rep phone_sep 0 (Some 1), Rep is_digit 2 (Some 4),
       Rep phone_sep 0 (Some 1), Rep is_digit 3 (Some 4), Rep phone_sep 0 (Some 1),
       Rep is_digit 3 (Some 4)],
      [Lits [''+44'', ''0''], Rep is_space 0 (Some 1), Rep is_digit 10 (Some 11)],
      [Rep is_digit 5 (Some 5), Rep is_space 0 (Some 1), Rep is_digit 6 (Some 6)]]"

definition uk_phone_matches :: "string \<Rightarrow> string list" where
  \<comment> \<open>the list \<open>phones\<close> that \<open>_extract_uk_phones\<close> builds before it turns it into a set\<close>
  "uk_phone_matches text = concat (map (\<lambda>p. findall p text) phone_patterns)"

definition rating_pattern :: "atom list" where
  \<comment> \<open>\<open>(\d+\.?\d*)\s*\((\d+)\)\<close>: group 1 is pieces 0 to 2, group 2 is piece 5\<close>
  "rating_pattern =
     [Rep is_digit 1 None, Rep (\<lambda>c. c = CHR ''.'') 0 (Some 1), Rep is_digit 0 None,
      Rep is_space 0 None, Rep (\<lambda>c. c = CHR ''('') 1 (Some 1), Rep is_digit 1 None,
      Rep (\<lambda>c. c = CHR '')'') 1 (Some 1)]"

section \<open>Exceptions, pages and the web\<close>

datatype exn =
    ConnectionError | Timeout | HTTPError   \<comment> \<open>subclasses of \<open>requests.RequestException\<close>\<close>
  | TypeError | ValueError | AttributeError | RuntimeError

definition is_request_exception :: "exn \<Rightarrow> bool" where
  "is_request_exception e = (e \<in> {ConnectionError, Timeout, HTTPError})"

definition bnd :: "exn + 'a \<Rightarrow> ('a \<Rightarrow> exn + 'b) \<Rightarrow> exn + 'b" where
  \<comment> \<open>one statement after another: the first exception raised ends the sequence\<close>
  "bnd m f = (case m of Inl e \<Rightarrow> Inl e | Inr x \<Rightarrow> f x)"

text \<open>
  A parsed document and each of its nodes is known to the program only through
  \<open>get_text\<close>, \<open>select\<close> and \<open>select_one\<close>. A node is therefore its text together with
  the nodes each selector finds below it, in document order; \<open>Broken\<close> is a node on
  which every call raises.
\<close>

datatype element =
    Element string "(string \<times> element list) list"
  | Broken exn

fun get_text :: "element \<Rightarrow> exn + string" where
  "get_text (Element t found) = Inr t"
| "get_text (Broken e) = Inl e"

fun select :: "element \<Rightarrow> string \<Rightarrow> exn + element list" where
  "select (Element t found) sel = Inr (case map_of found sel of None \<Rightarrow> [] | Some es \<Rightarrow> es)"
| "select (Broken e) sel = Inl e"

definition select_one :: "element \<Rightarrow> string \<Rightarrow> exn + element option" where
  "select_one el sel =
     bnd (select el sel) (\<lambda>es. Inr (case es of [] \<Rightarrow> None | x # _ \<Rightarrow> Some x))"

definition select_or :: "element \<Rightarrow> string \<Rightarrow> string \<Rightarrow> exn + element list" where
  \<comment> \<open>\<open>el.select(a) or el.select(b)\<close>: an empty list is false\<close>
  "select_or el a b = bnd (select el a) (\<lambda>es. if es \<noteq> [] then Inr es else select el b)"

definition select_one_or :: "element \<Rightarrow> string \<Rightarrow> string \<Rightarrow> exn + element option" where
  \<comment> \<open>\<open>el.select_one(a) or el.select_one(b)\<close>: a node is true, \<open>None\<close> is false\<close>
  "select_one_or el a b =
     bnd (select_one el a) (\<lambda>r. case r of Some x \<Rightarrow> Inr (Some x) | None \<Rightarrow> select_one el b)"

fun texts_of :: "element list \<Rightarrow> exn + string list" where
  \<comment> \<open>\<open>[c.get_text() for c in cs]\<close>\<close>
  "texts_of [] = Inr []"
| "texts_of (c # cs) = bnd (get_text c) (\<lambda>t. bnd (texts_of cs) (\<lambda>ts. Inr (t # ts)))"

datatype url =
    Yell_url string string int        \<comment> \<open>keywords, location, pageNum\<close>
  | Freeindex_url string string int   \<comment> \<open>k, l, p\<close>
  | Thomson_url string string int     \<comment> \<open>query, location, page\<close>
  | Yelp_url string string int        \<comment> \<open>find_desc, find_loc, start\<close>
  | Google_url string string          \<comment> \<open>the query and location of \<open>q\<close>\<close>

text \<open>
  \<open>http_get\<close> stands for \<open>session.get\<close>, \<open>raise_for_status\<close> and the parse of the body:
  it raises, or gives the parsed page. A network failure is \<open>ConnectionError\<close> or
  \<open>Timeout\<close>, a status of the 4xx or 5xx range is \<open>HTTPError\<close>. \<open>set_first\<close> is the member
  that \<open>list(set(xs))[0]\<close> yields; which one that is Python leaves open. The pause of
  \<open>_delay\<close> takes time and changes nothing else, so it has no part in the model.
\<close>

record world =
  http_get :: "url \<Rightarrow> exn + element"
  set_first :: "string list \<Rightarrow> string"

section \<open>Listing records and the source adapters\<close>

text \<open>
  Of the fields of \<open>UKBusiness\<close> the record keeps those that an adapter writes. The others
  hold their defaults on every record; \<open>scraped_at\<close> is the time of creation.
\<close>

record business =
  name :: string
  phone :: string
  address :: string
  postcode :: string
  industry :: string
  description :: string
  rating :: string
  review_count :: string
  source :: string

definition new_business :: "string \<Rightarrow> business" where
  \<comment> \<open>\<open>UKBusiness(source=s)\<close>\<close>
  "new_business s =
     \<lparr>name = [], phone = [], address = [], postcode = [], industry = [], description = [],
      rating = [], review_count = [], source = s\<rparr>"

fun when_found :: "element option \<Rightarrow> (string \<Rightarrow> business \<Rightarrow> business) \<Rightarrow> business \<Rightarrow> exn + business" where
  \<comment> \<open>\<open>if elem: ... elem.get_text() ...\<close>\<close>
  "when_found None f b = Inr b"
| "when_found (Some el) f b = bnd (get_text el) (\<lambda>t. Inr (f t b))"

definition yell_listing :: "element \<Rightarrow> exn + business" where
  "yell_listing listing =
     bnd (select_one_or listing ''.businessCapsule--name a'' ''h2 a'') (\<lambda>name_elem.
     bnd (when_found name_elem (\<lambda>t b. b\<lparr>name := clean_text t\<rparr>) (new_business ''yell.com'')) (\<lambda>b1.
     bnd (select_one_or listing ''.businessCapsule--address'' ''[itemprop=\"address\"]'') (\<lambda>address_elem.
     bnd (when_found address_elem
            (\<lambda>t b. b\<lparr>address := clean_text t, postcode := extract_uk_postcode (clean_text t)\<rparr>) b1) (\<lambda>b2.
     bnd (select_one_or listing ''.businessCapsule--phone'' ''[data-testid=\"phone-number\"]'') (\<lambda>phone_elem.
     bnd (when_found phone_elem (\<lambda>t b. b\<lparr>phone := clean_text t\<rparr>) b2) (\<lambda>b3.
     bnd (select listing ''.businessCapsule--category a'') (\<lambda>categories.
     bnd (texts_of categories) (\<lambda>ts.
     let b4 = (if categories \<noteq> [] then b3\<lparr>industry := join '', '' (map clean_text ts)\<rparr> else b3) in
     bnd (select_one listing ''.starRating--average'') (\<lambda>rating_elem.
     bnd (when_found rating_elem (\<lambda>t b. b\<lparr>rating := clean_text t\<rparr>) b4) (\<lambda>b5.
     bnd (select_one listing ''.businessCapsule--description'') (\<lambda>desc_elem.
     when_found desc_elem (\<lambda>t b. b\<lparr>description := clean_text t\<rparr>) b5)))))))))))"

definition freeindex_listing :: "element \<Rightarrow> exn + business" where
  "freeindex_listing listing =
     bnd (select_one_or listing ''.listing-title a'' ''h3 a'') (\<lambda>name_elem.
     bnd (when_found name_elem (\<lambda>t b. b\<lparr>name := clean_text t\<rparr>) (new_business ''freeindex'')) (\<lambda>b1.
     bnd (select_one listing ''.listing-location'') (\<lambda>loc_elem.
     bnd (when_found loc_elem
            (\<lambda>t b. b\<lparr>address := clean_text t, postcode := extract_uk_postcode t\<rparr>) b1) (\<lambda>b2.
     bnd (select_one listing ''.listing-category'') (\<lambda>cat_elem.
     bnd (when_found cat_elem (\<lambda>t b. b\<lparr>industry := clean_text t\<rparr>) b2) (\<lambda>b3.
     bnd (select_one listing ''.rating-value'') (\<lambda>rating_elem.
     when_found rating_elem (\<lambda>t b. b\<lparr>rating := clean_text t\<rparr>) b3)))))))"

definition thomson_listing :: "element \<Rightarrow> exn + business" where
  "thomson_listing listing =
     bnd (select_one_or listing ''.listing-name a'' ''h2 a'') (\<lambda>name_elem.
     bnd (when_found name_elem (\<lambda>t b. b\<lparr>name := clean_text t\<rparr>) (new_business ''thomson_local'')) (\<lambda>b1.
     bnd (select_one listing ''.listing-address'') (\<lambda>address_elem.
     bnd (when_found address_elem
            (\<lambda>t b. b\<lparr>address := clean_text t, postcode := extract_uk_postcode t\<rparr>) b1) (\<lambda>b2.
     bnd (select_one_or listing ''.listing-phone'' ''a[href^=\"tel:\"]'') (\<lambda>phone_elem.
     when_found phone_elem (\<lambda>t b. b\<lparr>phone := clean_text t\<rparr>) b2)))))"

definition yelp_listing :: "element \<Rightarrow> exn + business" where
  "yelp_listing listing =
     bnd (select_one listing ''a[href*=\"/biz/\"]'') (\<lambda>name_elem.
     bnd (when_found name_elem (\<lambda>t b. b\<lparr>name := clean_text t\<rparr>) (new_business ''yelp_uk'')) (\<lambda>b1.
     bnd (select listing ''[class*=\"category\"] a'') (\<lambda>cats.
     bnd (texts_of cats) (\<lambda>ts.
     Inr (if cats \<noteq> [] then b1\<lparr>industry := join '', '' (map clean_text ts)\<rparr> else b1)))))"

definition google_listing :: "world \<Rightarrow> element \<Rightarrow> exn + business" where
  "google_listing w result =
     bnd (select_one_or result ''.dbg0pd'' ''.OSrXXb'') (\<lambda>name_elem.
     bnd (when_found name_elem (\<lambda>t b. b\<lparr>name := clean_text t\<rparr>) (new_business ''google_maps'')) (\<lambda>b1.
     bnd (get_text result) (\<lambda>text.
     let b2 = (case re_search rating_pattern text of
                 Some m \<Rightarrow> b1\<lparr>rating := pieces m 0 3, review_count := pieces m 5 6\<rparr>
               | None \<Rightarrow> b1) in
     bnd (select_one result ''.rllt__details'') (\<lambda>address_elem.
     bnd (when_found address_elem
            (\<lambda>t b. b\<lparr>address := clean_text t, postcode := extract_uk_postcode t\<rparr>) b2) (\<lambda>b3.
     let phones = uk_phone_matches text in
     Inr (if phones \<noteq> [] then b3\<lparr>phone := set_first w phones\<rparr> else b3))))))"

fun listings_loop :: "(element \<Rightarrow> exn + business) \<Rightarrow> element list \<Rightarrow> business list \<Rightarrow> business list" where
  \<comment> \<open>\<open>for listing in listings: try: ... if business.name: businesses.append(business)
      except Exception: continue\<close>\<close>
  "listings_loop parse [] businesses = businesses"
| "listings_loop parse (listing # listings) businesses =
     (case parse listing of
        Inl e \<Rightarrow> listings_loop parse listings businesses
      | Inr b \<Rightarrow>
          if name b \<noteq> [] then listings_loop parse listings (businesses @ [b])
          else listings_loop parse listings businesses)"

text \<open>
  The four paginated adapters run one and the same loop over their pages; the source
  writes it out four times, the model once. A \<open>site\<close> holds what differs: the address
  of a page, the two selectors of the listing containers, the reading of one listing,
  and whether the loop has the test \<open>if not listings: break\<close>, which \<open>scrape_yelp_uk\<close>
  alone has not. Next to its result an adapter gives the requests it made, in order.
\<close>

record site =
  url_of :: "int \<Rightarrow> url"
  primary :: string
  secondary :: string
  parse :: "element \<Rightarrow> exn + business"
  stop_on_empty :: bool

definition page_listings :: "world \<Rightarrow> site \<Rightarrow> int \<Rightarrow> exn + element list" where
  \<comment> \<open>the \<open>try\<close> block of one page, down to \<open>listings\<close>\<close>
  "page_listings w a page =
     bnd (http_get w (url_of a page)) (\<lambda>soup. select_or soup (primary a) (secondary a))"

fun crawl :: "world \<Rightarrow> site \<Rightarrow> int list \<Rightarrow> business list \<Rightarrow> url list \<Rightarrow> (exn + business list) \<times> url list" where
  "crawl w a [] businesses log = (Inr businesses, log)"
| "crawl w a (page # pages) businesses log =
     (case page_listings w a page of
        Inl e \<Rightarrow>
          (if is_request_exception e then Inr businesses else Inl e, log @ [url_of a page])
      | Inr listings \<Rightarrow>
          if stop_on_empty a \<and> listings = [] then (Inr businesses, log @ [url_of a page])
          else crawl w a pages (listings_loop (parse a) listings businesses)
                 (log @ [url_of a page]))"

definition yell_site :: "string \<Rightarrow> string \<Rightarrow> site" where
  "yell_site q l =
     \<lparr>url_of = Yell_url q l, primary = ''.businessCapsule'',
      secondary = ''[data-testid=\"business-card\"]'', parse = yell_listing,
      stop_on_empty = True\<rparr>"

definition freeindex_site :: "string \<Rightarrow> string \<Rightarrow> site" where
  "freeindex_site q l =
     \<lparr>url_of = Freeindex_url q l, primary = ''.listing'',
      secondary = ''.search-result-item'', parse = freeindex_listing, stop_on_empty = True\<rparr>"

definition thomson_site :: "string \<Rightarrow> string \<Rightarrow> site" where
  "thomson_site q l =
     \<lparr>url_of = Thomson_url q l, primary = ''.listing-item'',
      secondary = ''.search-result'', parse = thomson_listing, stop_on_empty = True\<rparr>"

definition yelp_site :: "string \<Rightarrow> string \<Rightarrow> site" where
  "yelp_site q l =
     \<lparr>url_of = (\<lambda>page. Yelp_url q l (page * 10)), primary = ''[data-testid=\"serp-ia-card\"]'',
      secondary = ''.container__09f24__FeTO6'', parse = yelp_listing, stop_on_empty = False\<rparr>"

definition scrape_yell :: "world \<Rightarrow> string \<Rightarrow> string \<Rightarrow> int \<Rightarrow> (exn + business list) \<times> url list" where
  \<comment> \<open>\<open>for page in range(1, max_pages + 1)\<close>\<close>
  "scrape_yell w q l max_pages = crawl w (yell_site q l) [1 .. max_pages] [] []"

definition scrape_freeindex :: "world \<Rightarrow> string \<Rightarrow> string \<Rightarrow> int \<Rightarrow> (exn + business list) \<times> url list" where
  "scrape_freeindex w q l max_pages = crawl w (freeindex_site q l) [1 .. max_pages] [] []"

definition scrape_thomson_local :: "world \<Rightarrow> string \<Rightarrow> string \<Rightarrow> int \<Rightarrow> (exn + business list) \<times> url list" where
  "scrape_thomson_local w q l max_pages = crawl w (thomson_site q l) [1 .. max_pages] [] []"

definition scrape_yelp_uk :: "world \<Rightarrow> string \<Rightarrow> string \<Rightarrow> int \<Rightarrow> (exn + business list) \<times> url list" where
  \<comment> \<open>\<open>for page in range(max_pages)\<close>, with \<open>start = page * 10\<close>\<close>
  "scrape_yelp_uk w q l max_pages = crawl w (yelp_site q l) [0 .. max_pages - 1] [] []"

definition slice_to :: "'a list \<Rightarrow> int \<Rightarrow> 'a list" where
  \<comment> \<open>\<open>xs[:n]\<close>: a negative \<open>n\<close> counts from the end\<close>
  "slice_to xs n = (if 0 \<le> n then take (nat n) xs else take (length xs - nat (- n)) xs)"

definition scrape_google_maps :: "world \<Rightarrow> string \<Rightarrow> string \<Rightarrow> int \<Rightarrow> (exn + business list) \<times> url list" where
  "scrape_google_maps w q l max_results =
     (case bnd (http_get w (Google_url q l)) (\<lambda>soup. select_or soup ''.VkpGBb'' ''[data-hveid]'') of
        Inl e \<Rightarrow> (if is_request_exception e then Inr [] else Inl e, [Google_url q l])
      | Inr local_results \<Rightarrow>
          (Inr (listings_loop (google_listing w) (slice_to local_results max_results) []),
           [Google_url q l]))"

section \<open>The orchestrator\<close>

text \<open>
  \<open>search\<close> also stores its result in \<open>self.results\<close>. Nothing reads that attribute, and
  the handler makes a new scraper for every request, so the model returns the result only.
\<close>

definition source_methods :: "world \<Rightarrow> string \<Rightarrow> string \<Rightarrow> int \<Rightarrow> string \<rightharpoonup> (exn + business list) \<times> url list" where
  \<comment> \<open>the dictionary of \<open>search\<close>; an entry is what its call gives\<close>
  "source_methods w q l max_pages =
     [''yell'' \<mapsto> scrape_yell w q l max_pages,
      ''google'' \<mapsto> scrape_google_maps w q l (max_pages * 10),
      ''thomson'' \<mapsto> scrape_thomson_local w q l max_pages,
      ''freeindex'' \<mapsto> scrape_freeindex w q l max_pages,
      ''yelp'' \<mapsto> scrape_yelp_uk w q l max_pages]"

fun sources_loop :: "world \<Rightarrow> string \<Rightarrow> string \<Rightarrow> int \<Rightarrow> string list \<Rightarrow> business list \<Rightarrow> business list" where
  \<comment> \<open>\<open>for source in sources: if source in source_methods: try: ... except Exception: pass\<close>\<close>
  "sources_loop w q l max_pages [] all_businesses = all_businesses"
| "sources_loop w q l max_pages (s # ss) all_businesses =
     (case source_methods w q l max_pages s of
        None \<Rightarrow> sources_loop w q l max_pages ss all_businesses
      | Some run \<Rightarrow>
          (case fst run of
             Inl e \<Rightarrow> sources_loop w q l max_pages ss all_businesses
           | Inr results \<Rightarrow> sources_loop w q l max_pages ss (all_businesses @ results)))"

definition normalized_name :: "business \<Rightarrow> string" where
  \<comment> \<open>\<open>biz.name.lower().strip()\<close>\<close>
  "normalized_name biz = strip (lower (name biz))"

fun dedup_loop :: "business list \<Rightarrow> string set \<Rightarrow> business list \<Rightarrow> business list" where
  "dedup_loop [] seen_names unique_businesses = unique_businesses"
| "dedup_loop (biz # rest) seen_names unique_businesses =
     (let name_lower = normalized_name biz
      in if name_lower \<noteq> [] \<and> name_lower \<notin> seen_names
         then dedup_loop rest (insert name_lower seen_names) (unique_businesses @ [biz])
         else dedup_loop rest seen_names unique_businesses)"

definition all_businesses :: "world \<Rightarrow> string \<Rightarrow> string \<Rightarrow> string list option \<Rightarrow> int \<Rightarrow> business list" where
  \<comment> \<open>the list \<open>all_businesses\<close> of \<open>search\<close> when its first loop is over\<close>
  "all_businesses w q l srcs max_pages =
     sources_loop w q l max_pages
       (case srcs of None \<Rightarrow> [''yell'', ''freeindex''] | Some ss \<Rightarrow> ss) []"

definition search :: "world \<Rightarrow> string \<Rightarrow> string \<Rightarrow> string list option \<Rightarrow> int \<Rightarrow> business list" where
  "search w q l srcs max_pages = dedup_loop (all_businesses w q l srcs max_pages) {} []"

section \<open>The request boundary\<close>

text \<open>
  A request is what \<open>do_POST\<close> reads of it: the \<open>Content-Length\<close> header as \<open>int\<close> meets it,
  and, for a length, what \<open>json.loads\<close> makes of the body read to that length: an
  exception when the bytes are not JSON or the value has no \<open>get\<close>, else the four fields
  of the object, each absent or of the type the interface declares.
\<close>

datatype content_length = Missing | Not_a_number | Length int

record fields =
  query :: "string option"
  location :: "string option"
  sources :: "string list option"
  max_pages :: "int option"

record request =
  content_length :: content_length
  read_json :: "int \<Rightarrow> exn + fields"

datatype body =
    Error_body exn            \<comment> \<open>\<open>{'error': str(e)}\<close>\<close>
  | Missing_body              \<comment> \<open>\<open>{'error': 'Missing query or location'}\<close>\<close>
  | Result_body "business list" nat string string "string list"
                              \<comment> \<open>businesses, count, query, location, sources\<close>

record response =
  status :: int
  headers :: "(string \<times> string) list"
  content :: body

datatype outcome =
    Escapes exn          \<comment> \<open>the exception leaves \<open>do_POST\<close>\<close>
  | Responds response

definition do_POST :: "world \<Rightarrow> request \<Rightarrow> outcome" where
  "do_POST w req =
     (case content_length req of
        Missing \<Rightarrow> Escapes TypeError
      | Not_a_number \<Rightarrow> Escapes ValueError
      | Length n \<Rightarrow>
          (case read_json req n of
             Inl e \<Rightarrow>
               Responds \<lparr>status = 500, headers = [(''Content-type'', ''application/json'')],
                         content = Error_body e\<rparr>
           | Inr data \<Rightarrow>
               (let q = (case query data of None \<Rightarrow> [] | Some v \<Rightarrow> v);
                    l = (case location data of None \<Rightarrow> [] | Some v \<Rightarrow> v);
                    srcs = (case sources data of None \<Rightarrow> [''yell'', ''freeindex''] | Some v \<Rightarrow> v);
                    pages = min (case max_pages data of None \<Rightarrow> 2 | Some v \<Rightarrow> v) 5
                in if q = [] \<or> l = []
                   then Responds \<lparr>status = 400,
                                   headers = [(''Content-type'', ''application/json'')],
                                   content = Missing_body\<rparr>
                   else (let businesses = search w q l (Some srcs) pages
                         in Responds \<lparr>status = 200,
                                       headers = [(''Content-type'', ''application/json''),
                                                  (''Access-Control-Allow-Origin'', ''*'')],
                                       content = Result_body businesses (length businesses) q l srcs\<rparr>))))"

section \<open>The specification's wording\<close>


definition uppercase_postcode :: "atom list" where
  \<comment> \<open>the pattern of the program with capital letters only\<close>
  "uppercase_postcode =
     [Rep is_upper 1 (Some 2), Rep is_digit 1 (Some 1),
      Rep (\<lambda>c. is_upper c \<or> is_digit c) 0 (Some 1), Rep is_space 0 None,
      Rep is_digit 1 (Some 1), Rep is_upper 2 (Some 2)]"

text \<open>
  The noise rule as the specification words it, by the domain of the address: domains
  \<open>example.*\<close>, \<open>domain.*\<close>, \<open>email.*\<close>, a match with an image-file suffix, and the
  tracking domain.
\<close>

definition domain_of :: "string \<Rightarrow> string" where
  "domain_of e = drop 1 (dropWhile (\<lambda>c. c \<noteq> CHR ''@'') e)"

definition starts_with :: "string \<Rightarrow> string \<Rightarrow> bool" where
  "starts_with p s = (take (length p) s = p)"

definition ends_with :: "string \<Rightarrow> string \<Rightarrow> bool" where
  "ends_with p s = (length p \<le> length s \<and> drop (length s - length p) s = p)"

definition spec_noise_domain :: "string \<Rightarrow> bool" where
  "spec_noise_domain e =
     (let d = lower (domain_of e)
      in starts_with ''example.'' d \<or> starts_with ''domain.'' d \<or> starts_with ''email.'' d
         \<or> ends_with ''.png'' (lower e) \<or> ends_with ''.jpg'' (lower e)
         \<or> ends_with ''.gif'' (lower e) \<or> py_in ''sentry.io'' d)"

definition page_records :: "world \<Rightarrow> site \<Rightarrow> int \<Rightarrow> business list" where
  \<comment> \<open>the records that one page adds to \<open>businesses\<close>\<close>
  "page_records w a page =
     (case page_listings w a page of
        Inl e \<Rightarrow> []
      | Inr listings \<Rightarrow> listings_loop (parse a) listings [])"

section \<open>What every adapter record satisfies\<close>

definition valid_record :: "business \<Rightarrow> bool" where
  \<comment> \<open>a name that is not empty has a character that is not whitespace; a postcode that
      is not empty is one of the upper-case pattern\<close>
  "valid_record b =
     ((name b = [] \<or> (\<exists>c\<in>set (name b). \<not> is_space c))
      \<and> (postcode b = [] \<or> accepts uppercase_postcode (postcode b)))"

section \<open>Sample pages\<close>

definition blank_web :: world where
  \<comment> \<open>every request succeeds and no page has a listing\<close>
  "blank_web = \<lparr>http_get = (\<lambda>u. Inr (Element [] [])), set_first = (\<lambda>xs. [])\<rparr>"

definition yell_page :: element where
  "yell_page =
     Element [] [(''.businessCapsule'',
       [Element []
          [(''.businessCapsule--name a'', [Element '' ABC  Plumbing '' []]),
           (''.businessCapsule--address'', [Element ''1 High St, Leeds ls1 4ap'' []])],
        Element [] [(''h2 a'', [Element ''J Smith'' []])],
        Element [] [(''.businessCapsule--phone'', [Element ''0113 245 6789'' []])],
        Broken RuntimeError])]"

definition freeindex_page :: element where
  "freeindex_page =
     Element [] [(''.search-result-item'',
       [Element [] [(''h3 a'', [Element ''abc plumbing'' []])],
        Element [] [(''.listing-title a'', [Element ''Leeds Drains'' []])]])]"

definition demo_web :: world where
  \<comment> \<open>Yell: one page, then a failing request. FreeIndex: one page, then an empty one.
      Thomson Local: the parse raises. Yelp and Google: nothing found.\<close>
  "demo_web =
     \<lparr>http_get = (\<lambda>u.
        if u = Yell_url ''plumbers'' ''Leeds'' 1 then Inr yell_page
        else if u = Yell_url ''plumbers'' ''Leeds'' 2 then Inl HTTPError
        else if u = Freeindex_url ''plumbers'' ''Leeds'' 1 then Inr freeindex_page
        else if u = Thomson_url ''plumbers'' ''Leeds'' 1 then Inl RuntimeError
        else Inr (Element [] [])),
      set_first = (\<lambda>xs. [])\<rparr>"

definition abc_yell :: business where
  "abc_yell =
     \<lparr>name = ''ABC Plumbing'', phone = [], address = ''1 High St, Leeds ls1 4ap'',
      postcode = ''LS1 4AP'', industry = [], description = [], rating = [],
      review_count = [], source = ''yell.com''\<rparr>"

definition smith_yell :: business where
  "smith_yell = (new_business ''yell.com'')\<lparr>name := ''J Smith''\<rparr>"

definition abc_freeindex :: business where
  "abc_freeindex = (new_business ''freeindex'')\<lparr>name := ''abc plumbing''\<rparr>"

definition drains_freeindex :: business where
  "drains_freeindex = (new_business ''freeindex'')\<lparr>name := ''Leeds Drains''\<rparr>"

definition acme_web :: world where
  \<comment> \<open>Yell and FreeIndex each list one business, under names that differ in case and
      in a trailing blank; every other request fails\<close>
  "acme_web =
     \<lparr>http_get = (\<lambda>u.
        if u = Yell_url ''acme'' ''York'' 1
        then Inr (Element [] [(''.businessCapsule'',
               [Element [] [(''h2 a'', [Element ''ACME LTD '' []])]])])
        else if u = Freeindex_url ''acme'' ''York'' 1
        then Inr (Element [] [(''.listing'',
               [Element [] [(''h3 a'', [Element ''acme ltd'' []])]])])
        else Inl ConnectionError),
      set_first = (\<lambda>xs. [])\<rparr>"

definition acme_yell :: business where
  "acme_yell = (new_business ''yell.com'')\<lparr>name := ''ACME LTD''\<rparr>"

definition acme_freeindex :: business where
  "acme_freeindex = (new_business ''freeindex'')\<lparr>name := ''acme ltd''\<rparr>"

definition demo_request :: request where
  "demo_request =
     \<lparr>content_length = Length 74,
      read_json = (\<lambda>n. Inr \<lparr>query = Some ''plumbers'', location = Some ''Leeds'',
                              sources = Some [''yell''], max_pages = Some 100\<rparr>)\<rparr>"

section \<open>The matcher and the texts a pattern describes\<close>

lemma try_down_Some:
  "try_down f lo k = Some r \<Longrightarrow> \<exists>j. lo \<le> j \<and> j \<le> k \<and> f j = Some r"
proof (induction k)
  case 0
  then show ?case by (auto split: if_splits)
next
  case (Suc k)
  show ?case
  proof (cases "f (Suc k)")
    case None
    with Suc.prems have "try_down f lo k = Some r" by (auto split: if_splits)
    with Suc.IH show ?thesis by (meson le_SucI)
  next
    case (Some a)
    with Suc.prems have "f (Suc k) = Some r" "lo \<le> Suc k" by (auto split: if_splits)
    then show ?thesis by blast
  qed
qed

lemma try_down_None:
  "try_down f lo k = None \<Longrightarrow> lo \<le> j \<Longrightarrow> j \<le> k \<Longrightarrow> f j = None"
proof (induction k)
  case 0
  then show ?case by (auto split: if_splits)
next
  case (Suc k)
  then show ?case
    by (cases "j = Suc k") (auto split: if_splits option.splits)
qed

lemma first_some_Some:
  "first_some f xs = Some r \<Longrightarrow> \<exists>x\<in>set xs. f x = Some r"
  by (induction xs) (auto split: option.splits)

lemma first_some_None:
  "first_some f xs = None \<Longrightarrow> x \<in> set xs \<Longrightarrow> f x = None"
  by (induction xs) (auto split: option.splits)

lemma accepts_Cons:
  "accepts (a # as) s \<longleftrightarrow> (\<exists>k\<le>length s. atom_ok a (take k s) \<and> accepts as (drop k s))"
proof -
  have "accepts (a # as) s
          \<longleftrightarrow> (\<exists>k\<in>set [0 ..< Suc (length s)]. atom_ok a (take k s) \<and> accepts as (drop k s))"
    by (simp only: accepts.simps list_ex_iff)
  also have "\<dots> \<longleftrightarrow> (\<exists>k\<le>length s. atom_ok a (take k s) \<and> accepts as (drop k s))"
    by (auto simp add: less_Suc_eq_le simp del: upt_Suc)
  finally show ?thesis .
qed

lemma accepts_Cons_append:
  "accepts (a # as) s \<longleftrightarrow> (\<exists>u v. s = u @ v \<and> atom_ok a u \<and> accepts as v)"
proof
  assume "accepts (a # as) s"
  then obtain k where "k \<le> length s" "atom_ok a (take k s)" "accepts as (drop k s)"
    unfolding accepts_Cons by blast
  then show "\<exists>u v. s = u @ v \<and> atom_ok a u \<and> accepts as v"
    by (metis append_take_drop_id)
next
  assume "\<exists>u v. s = u @ v \<and> atom_ok a u \<and> accepts as v"
  then obtain u v where "s = u @ v" "atom_ok a u" "accepts as v" by blast
  then show "accepts (a # as) s"
    unfolding accepts_Cons by (intro exI [of _ "length u"]) simp
qed

lemma greedy_bound:
  assumes "j \<le> greedy c hi s"
  shows "list_all c (take j s) \<and> j \<le> length s \<and> (case hi of None \<Rightarrow> True | Some h \<Rightarrow> j \<le> h)"
proof -
  from assms have j: "j \<le> length (takeWhile c s)"
    by (auto simp: greedy_def Let_def split: option.splits)
  have "take j s = take j (takeWhile c s @ dropWhile c s)"
    by simp
  also have "\<dots> = take j (takeWhile c s)"
    using j by (simp only: take_append) simp
  finally have "take j s = take j (takeWhile c s)" .
  moreover have "list_all c (take j (takeWhile c s))"
    by (metis in_set_takeD list_all_iff set_takeWhileD)
  moreover have "length (takeWhile c s) \<le> length s" by (rule length_takeWhile_le)
  ultimately show ?thesis using j assms
    by (auto simp: greedy_def Let_def split: option.splits)
qed

lemma greedy_reach:
  assumes "list_all c (take j s)" "j \<le> length s" "case hi of None \<Rightarrow> True | Some h \<Rightarrow> j \<le> h"
  shows "j \<le> greedy c hi s"
proof -
  have "j \<le> length (takeWhile c s)"
  proof -
    have "takeWhile c (take j s @ drop j s) = take j s @ takeWhile c (drop j s)"
      using assms(1) by (intro takeWhile_append2) (simp add: list_all_iff)
    then have "length (takeWhile c s) = length (take j s) + length (takeWhile c (drop j s))"
      by (metis append_take_drop_id length_append)
    with assms(2) show ?thesis by simp
  qed
  with assms(3) show ?thesis
    by (auto simp: greedy_def Let_def split: option.splits)
qed

lemma match_here_sound:
  "match_here p s = Some ns \<Longrightarrow>
     length ns = length p \<and> sum_list ns \<le> length s \<and> accepts p (take (sum_list ns) s)"
proof (induction p arbitrary: s ns)
  case Nil
  then show ?case by simp
next
  case (Cons a as)
  show ?case
  proof (cases a)
    case (Rep c lo hi)
    with Cons.prems obtain j where j: "lo \<le> j" "j \<le> greedy c hi s"
      and f: "map_option (Cons j) (match_here as (drop j s)) = Some ns"
      by (auto dest!: try_down_Some)
    then obtain ms where ms: "match_here as (drop j s) = Some ms" "ns = j # ms"
      by auto
    from Cons.IH [OF ms(1)] have ih: "length ms = length as" "sum_list ms \<le> length s - j"
      "accepts as (take (sum_list ms) (drop j s))" by auto
    from greedy_bound [OF j(2)] have g: "list_all c (take j s)" "j \<le> length s"
      "case hi of None \<Rightarrow> True | Some h \<Rightarrow> j \<le> h" by auto
    have "take (j + sum_list ms) s = take j s @ take (sum_list ms) (drop j s)"
      by (simp add: take_add)
    moreover have "atom_ok a (take j s)"
      using Rep g j(1) by (auto split: option.splits)
    ultimately have "accepts (a # as) (take (j + sum_list ms) s)"
      using ih(3) unfolding accepts_Cons_append by blast
    with ms ih g show ?thesis by simp
  next
    case (Lits ls)
    with Cons.prems obtain l where l: "l \<in> set ls" "take (length l) s = l"
      and f: "map_option (Cons (length l)) (match_here as (drop (length l) s)) = Some ns"
      by (auto dest!: first_some_Some split: if_splits)
    then obtain ms where ms: "match_here as (drop (length l) s) = Some ms" "ns = length l # ms"
      by auto
    from Cons.IH [OF ms(1)] have ih: "length ms = length as" "sum_list ms \<le> length s - length l"
      "accepts as (take (sum_list ms) (drop (length l) s))" by auto
    from l(2) have ll: "length l \<le> length s"
      by (metis length_take min.cobounded2 min.commute)
    have "take (length l + sum_list ms) s = l @ take (sum_list ms) (drop (length l) s)"
      using l(2) by (simp add: take_add)
    moreover have "atom_ok a l" using Lits l(1) by simp
    ultimately have "accepts (a # as) (take (length l + sum_list ms) s)"
      using ih(3) unfolding accepts_Cons_append by blast
    with ms ih ll show ?thesis by simp
  qed
qed

lemma match_here_complete:
  "accepts p (take n s) \<Longrightarrow> match_here p s \<noteq> None"
proof (induction p arbitrary: s n)
  case Nil
  then show ?case by simp
next
  case (Cons a as)
  from Cons.prems obtain u v where uv: "take n s = u @ v" "atom_ok a u" "accepts as v"
    unfolding accepts_Cons_append by blast
  have s_eq: "s = u @ v @ drop n s"
    using uv(1) by (metis append_take_drop_id append.assoc)
  have u: "u = take (length u) s"
    by (subst s_eq) simp
  have v: "v = take (length v) (drop (length u) s)"
    by (subst s_eq) simp
  have lu: "length u \<le> length s"
    by (subst s_eq) simp
  from Cons.IH [of "length v" "drop (length u) s"] uv(3) v
  have rest: "match_here as (drop (length u) s) \<noteq> None" by simp
  show ?case
  proof (cases a)
    case (Rep c lo hi)
    with uv(2) u have "list_all c (take (length u) s)" "lo \<le> length u"
      "case hi of None \<Rightarrow> True | Some h \<Rightarrow> length u \<le> h"
      by auto
    with lu have "length u \<le> greedy c hi s" by (intro greedy_reach)
    from try_down_None [of "\<lambda>k. map_option (Cons k) (match_here as (drop k s))" lo
        "greedy c hi s" "length u", OF _ \<open>lo \<le> length u\<close> this] rest
    have "try_down (\<lambda>k. map_option (Cons k) (match_here as (drop k s))) lo (greedy c hi s) \<noteq> None"
      by auto
    with Rep show ?thesis by simp
  next
    case (Lits ls)
    with uv(2) have "u \<in> set ls" by simp
    let ?f = "\<lambda>l. if take (length l) s = l
                 then map_option (Cons (length l)) (match_here as (drop (length l) s)) else None"
    have "?f u \<noteq> None" using rest u by auto
    with first_some_None [of ?f ls u] \<open>u \<in> set ls\<close> have "first_some ?f ls \<noteq> None"
      by blast
    with Lits show ?thesis by simp
  qed
qed

lemma re_search_Some:
  "re_search p s = Some (t, ns) \<Longrightarrow>
     \<exists>i\<le>length s. t = drop i s \<and> match_here p (drop i s) = Some ns
        \<and> (\<forall>j<i. match_here p (drop j s) = None)"
proof (induction s)
  case Nil
  then show ?case by auto
next
  case (Cons c cs)
  show ?case
  proof (cases "match_here p (c # cs)")
    case None
    with Cons.prems have "re_search p cs = Some (t, ns)" by simp
    with Cons.IH obtain i where i: "i \<le> length cs" "t = drop i cs"
      "match_here p (drop i cs) = Some ns" "\<forall>j<i. match_here p (drop j cs) = None"
      by blast
    have "\<forall>j<Suc i. match_here p (drop j (c # cs)) = None"
    proof (intro allI impI)
      fix j assume "j < Suc i"
      then show "match_here p (drop j (c # cs)) = None"
        using None i(4) by (cases j) auto
    qed
    with i show ?thesis
      by (intro exI [of _ "Suc i"]) simp
  next
    case (Some ms)
    with Cons.prems have "t = c # cs" "ns = ms" by auto
    with Some show ?thesis
      by (intro exI [of _ 0]) simp
  qed
qed

lemma re_search_None:
  "re_search p s = None \<Longrightarrow> i \<le> length s \<Longrightarrow> match_here p (drop i s) = None"
proof (induction s arbitrary: i)
  case Nil
  then show ?case by auto
next
  case (Cons c cs)
  then show ?case
    by (cases i) (auto split: option.splits)
qed

lemma matches_at_iff:
  "matches_at p s i \<longleftrightarrow> i \<le> length s \<and> match_here p (drop i s) \<noteq> None"
proof -
  have "list_ex (\<lambda>n. accepts p (take n (drop i s))) [0 ..< Suc (length s - i)]
          \<longleftrightarrow> match_here p (drop i s) \<noteq> None"
  proof
    assume "list_ex (\<lambda>n. accepts p (take n (drop i s))) [0 ..< Suc (length s - i)]"
    then obtain n where "accepts p (take n (drop i s))"
      unfolding list_ex_iff by blast
    then show "match_here p (drop i s) \<noteq> None"
      by (rule match_here_complete)
  next
    assume "match_here p (drop i s) \<noteq> None"
    then obtain ns where ns: "match_here p (drop i s) = Some ns" by auto
    from match_here_sound [OF this]
    have "sum_list ns \<le> length s - i" "accepts p (take (sum_list ns) (drop i s))"
      by auto
    then have "\<exists>n\<in>set [0 ..< Suc (length s - i)]. accepts p (take n (drop i s))"
      by (intro bexI [of _ "sum_list ns"]) (auto simp del: upt_Suc)
    then show "list_ex (\<lambda>n. accepts p (take n (drop i s))) [0 ..< Suc (length s - i)]"
      unfolding list_ex_iff .
  qed
  then show ?thesis
    unfolding matches_at_def by simp
qed

lemma accepts_map:
  assumes "list_all2 (\<lambda>a b. \<forall>u. atom_ok a u \<longrightarrow> atom_ok b (map f u)) p p'"
  shows "accepts p s \<Longrightarrow> accepts p' (map f s)"
  using assms
proof (induction p p' arbitrary: s rule: list_all2_induct)
  case Nil
  then show ?case by simp
next
  case (Cons a p b p')
  from Cons.prems obtain u v where "s = u @ v" "atom_ok a u" "accepts p v"
    unfolding accepts_Cons_append by blast
  with Cons.hyps(1) Cons.IH have "map f s = map f u @ map f v" "atom_ok b (map f u)"
    "accepts p' (map f v)" by auto
  then show ?case unfolding accepts_Cons_append by blast
qed

lemma upper_char_class:
  "is_letter c \<Longrightarrow> is_upper (upper_char c)"
  "is_digit c \<Longrightarrow> is_digit (upper_char c)"
  "is_space c \<Longrightarrow> is_space (upper_char c)"
  by (auto simp add: is_letter_def is_upper_def is_lower_def is_digit_def is_space_def
      upper_char_def)

section \<open>The postcode extractor\<close>


lemma upper_postcode:
  assumes "accepts postcode_pattern u"
  shows "accepts uppercase_postcode (upper u)"
proof -
  have "list_all2 (\<lambda>a b. \<forall>u. atom_ok a u \<longrightarrow> atom_ok b (map upper_char u))
          postcode_pattern uppercase_postcode"
    unfolding postcode_pattern_def uppercase_postcode_def
    by (auto simp add: list_all_iff upper_char_class)
  from accepts_map [OF this assms] show ?thesis
    by (simp add: upper_def)
qed

lemma postcode_search_None:
  assumes "re_search postcode_pattern text = None"
  shows "extract_uk_postcode text = []" and "\<not> matches_at postcode_pattern text i"
  using assms re_search_None [OF assms, of i]
  by (auto simp add: extract_uk_postcode_def matches_at_iff)

lemma postcode_search_Some:
  assumes "re_search postcode_pattern text = Some (t, ns)"
  shows "\<exists>i. i + sum_list ns \<le> length text
           \<and> matches_at postcode_pattern text i
           \<and> (\<forall>j<i. \<not> matches_at postcode_pattern text j)
           \<and> accepts postcode_pattern (take (sum_list ns) (drop i text))
           \<and> extract_uk_postcode text = upper (take (sum_list ns) (drop i text))"
proof -
  from re_search_Some [OF assms] obtain i where i: "i \<le> length text" "t = drop i text"
    "match_here postcode_pattern (drop i text) = Some ns"
    "\<forall>j<i. match_here postcode_pattern (drop j text) = None"
    by blast
  from match_here_sound [OF i(3)] have snd: "sum_list ns \<le> length text - i"
    "accepts postcode_pattern (take (sum_list ns) (drop i text))"
    by auto
  have "extract_uk_postcode text = upper (take (sum_list ns) (drop i text))"
    using assms i(2) by (simp add: extract_uk_postcode_def group0_def)
  moreover have "matches_at postcode_pattern text i"
    using i(1,3) by (simp add: matches_at_iff)
  moreover have "\<forall>j<i. \<not> matches_at postcode_pattern text j"
    using i(4) by (simp add: matches_at_iff)
  ultimately show ?thesis using snd i(1)
    by (intro exI [of _ i]) simp
qed




lemma extract_uk_postcode_uppercase:
  "extract_uk_postcode text = [] \<or> accepts uppercase_postcode (extract_uk_postcode text)"
proof (cases "re_search postcode_pattern text")
  case None
  then show ?thesis by (simp add: postcode_search_None)
next
  case (Some m)
  obtain t ns where "m = (t, ns)" by (cases m)
  with Some postcode_search_Some [of "text" t ns] upper_postcode show ?thesis
    by metis
qed

section \<open>The email extractor\<close>

lemma py_in_iff: "py_in x s \<longleftrightarrow> (\<exists>u v. s = u @ x @ v)"
proof (induction s)
  case Nil
  then show ?case by auto
next
  case (Cons c cs)
  show ?case
  proof
    assume "py_in x (c # cs)"
    then consider "take (length x) (c # cs) = x" | "py_in x cs" by auto
    then show "\<exists>u v. c # cs = u @ x @ v"
    proof cases
      case 1
      then have "c # cs = [] @ x @ drop (length x) (c # cs)"
        by (metis append_Nil append_take_drop_id)
      then show ?thesis by blast
    next
      case 2
      with Cons.IH obtain u v where "cs = u @ x @ v" by blast
      then have "c # cs = (c # u) @ x @ v" by simp
      then show ?thesis by blast
    qed
  next
    assume "\<exists>u v. c # cs = u @ x @ v"
    then obtain u v where uv: "c # cs = u @ x @ v" by blast
    show "py_in x (c # cs)"
    proof (cases u)
      case Nil
      with uv have "take (length x) (c # cs) = x" by simp
      then show ?thesis by simp
    next
      case (Cons d u')
      with uv have "cs = u' @ x @ v" by simp
      with Cons.IH have "py_in x cs" by blast
      then show ?thesis by simp
    qed
  qed
qed

lemma findall_from_sub:
  "e \<in> set (findall_from p k s) \<Longrightarrow> accepts p e \<and> (\<exists>u v. s = u @ e @ v)"
proof (induction p k s rule: findall_from.induct)
  case (1 p skip)
  then show ?case by simp
next
  case (2 p skip c cs)
  then have "accepts p e" and "\<exists>u v. cs = u @ e @ v" by auto
  then obtain u v where "cs = u @ e @ v" by blast
  then have "c # cs = (c # u) @ e @ v" by simp
  with \<open>accepts p e\<close> show ?case by blast
next
  case (3 p c cs)
  show ?case
  proof (cases "match_here p (c # cs)")
    case None
    with 3 have "accepts p e" and "\<exists>u v. cs = u @ e @ v" by auto
    then obtain u v where "cs = u @ e @ v" by blast
    then have "c # cs = (c # u) @ e @ v" by simp
    with \<open>accepts p e\<close> show ?thesis by blast
  next
    case (Some ns)
    with "3.prems" consider "e = take (sum_list ns) (c # cs)"
      | "e \<in> set (findall_from p (sum_list ns - 1) cs)" by auto
    then show ?thesis
    proof cases
      case 1
      from match_here_sound [OF Some] have "accepts p (take (sum_list ns) (c # cs))" by simp
      moreover have "c # cs = [] @ take (sum_list ns) (c # cs) @ drop (sum_list ns) (c # cs)"
        by simp
      ultimately show ?thesis using 1 by blast
    next
      case 2
      from "3.IH"(2) [OF Some 2] have "accepts p e" and "\<exists>u v. cs = u @ e @ v" by auto
      then obtain u v where "cs = u @ e @ v" by blast
      then have "c # cs = (c # u) @ e @ v" by simp
      with \<open>accepts p e\<close> show ?thesis by blast
    qed
  qed
qed

lemma findall_sub:
  "e \<in> set (findall p s) \<Longrightarrow> accepts p e \<and> py_in e s"
  unfolding findall_def py_in_iff by (rule findall_from_sub)

lemma distinct_count_list:
  "distinct ys \<Longrightarrow> count_list ys e = (if e \<in> set ys then 1 else 0)"
  by (induction ys) auto

lemma extract_emails_exists: "extract_emails text (remdups (filtered_emails text))"
  by (simp add: extract_emails_def)

lemma extract_emails_count:
  assumes "extract_emails text ys"
  shows "count_list ys e = (if e \<in> set (findall email_pattern text) \<and> \<not> is_noise e then 1 else 0)"
  using assms by (auto simp add: extract_emails_def distinct_count_list filtered_emails_def)

lemma is_noise_iff:
  "is_noise e \<longleftrightarrow> (\<exists>x\<in>set noise_markers. \<exists>u v. lower e = u @ x @ v)"
  by (simp add: is_noise_def list_ex_iff py_in_iff)

lemma lower_append: "lower (u @ v) = lower u @ lower v"
  by (simp add: lower_def)

lemma domain_of_suffix: "\<exists>u. e = u @ domain_of e"
  unfolding domain_of_def
  by (metis append_take_drop_id takeWhile_dropWhile_id append.assoc)

lemma spec_noise_is_noise:
  assumes "spec_noise_domain e"
  shows "is_noise e"
proof -
  obtain u where u: "lower e = lower u @ lower (domain_of e)"
    using domain_of_suffix [of e] lower_append by metis
  have start: "is_noise e" if "starts_with x (lower (domain_of e))" "x \<in> set noise_markers" for x
  proof -
    from that(1) have "lower (domain_of e) = x @ drop (length x) (lower (domain_of e))"
      unfolding starts_with_def by (metis append_take_drop_id)
    with u have "lower e = lower u @ x @ drop (length x) (lower (domain_of e))" by simp
    with that(2) show ?thesis unfolding is_noise_iff by blast
  qed
  have "end": "is_noise e" if "ends_with x (lower e)" "x \<in> set noise_markers" for x
  proof -
    from that(1) have "lower e = take (length (lower e) - length x) (lower e) @ x @ []"
      unfolding ends_with_def by (metis append_take_drop_id append_Nil2)
    with that(2) show ?thesis unfolding is_noise_iff by blast
  qed
  have mid: "is_noise e" if "py_in x (lower (domain_of e))" "x \<in> set noise_markers" for x
  proof -
    from that(1) obtain a b where "lower (domain_of e) = a @ x @ b"
      unfolding py_in_iff by blast
    with u have "lower e = (lower u @ a) @ x @ b" by simp
    with that(2) show ?thesis unfolding is_noise_iff by blast
  qed
  from assms show ?thesis
    unfolding spec_noise_domain_def Let_def
    by (auto intro: start "end" mid simp add: noise_markers_def)
qed

section \<open>Records read from a listing\<close>

lemma strip_nonempty:
  assumes "c \<in> set s" and "\<not> is_space c"
  shows "strip s \<noteq> []"
proof -
  let ?y = "dropWhile is_space s"
  from assms have "c \<in> set ?y"
    by (metis set_dropWhileD takeWhile_dropWhile_id set_append Un_iff set_takeWhileD)
  then have "c \<in> set (rev ?y)" by simp
  with assms(2) have "dropWhile is_space (rev ?y) \<noteq> []"
    by (auto simp add: dropWhile_eq_Nil_conv)
  then show ?thesis by (simp add: strip_def)
qed

lemma strip_ink:
  assumes "strip s \<noteq> []"
  shows "\<exists>c\<in>set (strip s). \<not> is_space c"
proof -
  let ?z = "dropWhile is_space (rev (dropWhile is_space s))"
  from assms have "?z \<noteq> []" by (simp add: strip_def)
  then have "\<not> is_space (hd ?z)" "hd ?z \<in> set ?z"
    by (auto simp add: hd_dropWhile)
  then show ?thesis by (auto simp add: strip_def)
qed

lemma clean_text_ink:
  "clean_text t = [] \<or> (\<exists>c\<in>set (clean_text t). \<not> is_space c)"
  using strip_ink [of "join '' '' (split t)"] by (auto simp add: clean_text_def)

lemma lower_char_space: "is_space (lower_char c) = is_space c"
  by (auto simp add: lower_char_def is_space_def Let_def)

lemma normalized_name_nonempty:
  assumes "c \<in> set (name b)" and "\<not> is_space c"
  shows "normalized_name b \<noteq> []"
proof -
  from assms have "lower_char c \<in> set (lower (name b))" "\<not> is_space (lower_char c)"
    by (auto simp add: lower_def lower_char_space)
  then show ?thesis
    unfolding normalized_name_def by (rule strip_nonempty)
qed

lemma normalized_name_empty: "name b = [] \<Longrightarrow> normalized_name b = []"
  by (simp add: normalized_name_def lower_def strip_def)

lemma bnd_Inr: "bnd m f = Inr y \<longleftrightarrow> (\<exists>x. m = Inr x \<and> f x = Inr y)"
  by (cases m) (auto simp add: bnd_def)

lemma when_found_Inr:
  "when_found el f b = Inr b' \<longleftrightarrow>
     (el = None \<and> b' = b) \<or> (\<exists>e t. el = Some e \<and> get_text e = Inr t \<and> b' = f t b)"
  by (cases el) (auto simp add: bnd_Inr)

lemma valid_new: "valid_record (new_business s)"
  by (simp add: valid_record_def new_business_def)

lemma valid_name: "valid_record b \<Longrightarrow> valid_record (b\<lparr>name := clean_text t\<rparr>)"
  using clean_text_ink [of t] by (auto simp add: valid_record_def)

lemma valid_postcode:
  "valid_record b \<Longrightarrow> valid_record (b\<lparr>address := x, postcode := extract_uk_postcode t\<rparr>)"
  using extract_uk_postcode_uppercase [of t] by (auto simp add: valid_record_def)

lemma valid_other [simp]:
  "valid_record (b\<lparr>phone := x\<rparr>) = valid_record b"
  "valid_record (b\<lparr>industry := x\<rparr>) = valid_record b"
  "valid_record (b\<lparr>description := x\<rparr>) = valid_record b"
  "valid_record (b\<lparr>rating := x\<rparr>) = valid_record b"
  "valid_record (b\<lparr>review_count := x\<rparr>) = valid_record b"
  by (simp_all add: valid_record_def)


lemma when_found_valid:
  assumes "when_found el f b = Inr b'" and "valid_record b"
    and "\<And>t b. valid_record b \<Longrightarrow> valid_record (f t b)"
  shows "valid_record b'"
  using assms by (auto simp add: when_found_Inr)

lemma bndE:
  assumes "bnd m f = Inr y"
  obtains x where "m = Inr x" and "f x = Inr y"
  using assms by (auto simp add: bnd_Inr)

lemma bnd_whenE:
  assumes "bnd (when_found el f b) g = Inr y" and "valid_record b"
    and "\<And>t b. valid_record b \<Longrightarrow> valid_record (f t b)"
  obtains b' where "valid_record b'" and "g b' = Inr y"
  using assms by (auto simp add: bnd_Inr dest: when_found_valid)

lemmas valid_steps = valid_new valid_name valid_postcode

lemma yell_listing_valid: "yell_listing x = Inr b \<Longrightarrow> valid_record b"
  unfolding yell_listing_def Let_def
  apply ((erule bnd_whenE, simp add: valid_steps, simp add: valid_steps) | erule bndE)+
  apply (erule when_found_valid)
   apply (simp_all add: valid_steps)
  done

lemma freeindex_listing_valid: "freeindex_listing x = Inr b \<Longrightarrow> valid_record b"
  unfolding freeindex_listing_def Let_def
  apply ((erule bnd_whenE, simp add: valid_steps, simp add: valid_steps) | erule bndE)+
  apply (erule when_found_valid)
   apply (simp_all add: valid_steps)
  done

lemma thomson_listing_valid: "thomson_listing x = Inr b \<Longrightarrow> valid_record b"
  unfolding thomson_listing_def Let_def
  apply ((erule bnd_whenE, simp add: valid_steps, simp add: valid_steps) | erule bndE)+
  apply (erule when_found_valid)
   apply (simp_all add: valid_steps)
  done

lemma yelp_listing_valid: "yelp_listing x = Inr b \<Longrightarrow> valid_record b"
  unfolding yelp_listing_def Let_def
  apply ((erule bnd_whenE, simp add: valid_steps, simp add: valid_steps) | erule bndE)+
  apply (auto split: if_splits)
  done

lemma google_listing_valid: "google_listing w x = Inr b \<Longrightarrow> valid_record b"
  unfolding google_listing_def Let_def
  apply ((erule bnd_whenE, simp add: valid_steps split: option.splits,
            simp add: valid_steps split: option.splits)
         | erule bndE)+
  apply (auto split: if_splits)
  done

section \<open>What the loops collect\<close>

lemma sources_loop_append:
  "sources_loop w q l mp (xs @ ys) acc = sources_loop w q l mp ys (sources_loop w q l mp xs acc)"
  by (induction xs arbitrary: acc) (auto split: option.splits sum.splits)

lemma known_sources:
  "source_methods w q l mp s = None
     \<longleftrightarrow> s \<notin> {''yell'', ''google'', ''thomson'', ''freeindex'', ''yelp''}"
  by (auto simp add: source_methods_def)

lemma listings_loop_acc:
  "listings_loop P ls acc = acc @ listings_loop P ls []"
proof (induction ls arbitrary: acc)
  case Nil
  then show ?case by simp
next
  case (Cons x ls)
  have "listings_loop P ls (acc @ [b]) = acc @ listings_loop P ls [b]" for b
    using Cons.IH [of "acc @ [b]"] Cons.IH [of "[b]"] by simp
  with Cons.IH [of acc] show ?case
    by (simp split: sum.splits)
qed

lemma listings_loop_eq:
  "listings_loop P ls acc =
     acc @ concat (map (\<lambda>x. case P x of Inl e \<Rightarrow> [] | Inr b \<Rightarrow> if name b \<noteq> [] then [b] else []) ls)"
proof (induction ls arbitrary: acc)
  case Nil
  then show ?case by simp
next
  case (Cons x ls)
  then show ?case by (simp split: sum.splits)
qed

lemma listings_loop_set:
  "b \<in> set (listings_loop P ls acc) \<Longrightarrow>
     b \<in> set acc \<or> (name b \<noteq> [] \<and> (\<exists>x\<in>set ls. P x = Inr b))"
  unfolding listings_loop_eq by (auto split: sum.splits if_splits)

lemma crawl_set:
  "crawl w a pages acc log = (Inr bs, log') \<Longrightarrow> b \<in> set bs \<Longrightarrow>
     b \<in> set acc \<or> (name b \<noteq> [] \<and> (\<exists>x. parse a x = Inr b))"
proof (induction pages arbitrary: acc log)
  case Nil
  then show ?case by simp
next
  case (Cons page pages)
  show ?case
  proof (cases "page_listings w a page")
    case (Inl e)
    with Cons.prems show ?thesis by (auto split: if_splits)
  next
    case (Inr ls)
    show ?thesis
    proof (cases "stop_on_empty a \<and> ls = []")
      case True
      with Inr Cons.prems show ?thesis by auto
    next
      case False
      with Inr Cons.prems
      have "crawl w a pages (listings_loop (parse a) ls acc) (log @ [url_of a page]) = (Inr bs, log')"
        by auto
      from Cons.IH [OF this Cons.prems(2)] show ?thesis
        by (auto dest: listings_loop_set)
    qed
  qed
qed

lemma google_set:
  "scrape_google_maps w q l n = (Inr bs, log) \<Longrightarrow> b \<in> set bs \<Longrightarrow>
     name b \<noteq> [] \<and> (\<exists>x. google_listing w x = Inr b)"
  by (auto simp add: scrape_google_maps_def split: sum.splits if_splits dest!: listings_loop_set)

lemma source_methods_cases:
  assumes "source_methods w q l mp s = Some run"
  shows "run = scrape_yell w q l mp \<or> run = scrape_google_maps w q l (mp * 10)
         \<or> run = scrape_thomson_local w q l mp \<or> run = scrape_freeindex w q l mp
         \<or> run = scrape_yelp_uk w q l mp"
  using assms by (auto simp add: source_methods_def split: if_splits)

lemma adapter_record:
  assumes "source_methods w q l mp s = Some (Inr bs, log)" and "b \<in> set bs"
  shows "name b \<noteq> [] \<and> valid_record b"
proof -
  from source_methods_cases [OF assms(1)]
  consider "scrape_yell w q l mp = (Inr bs, log)"
    | "scrape_google_maps w q l (mp * 10) = (Inr bs, log)"
    | "scrape_thomson_local w q l mp = (Inr bs, log)"
    | "scrape_freeindex w q l mp = (Inr bs, log)"
    | "scrape_yelp_uk w q l mp = (Inr bs, log)"
    by metis
  then show ?thesis
  proof cases
    case 1
    from crawl_set [OF 1 [unfolded scrape_yell_def] assms(2)] show ?thesis
      by (auto simp add: yell_site_def dest: yell_listing_valid)
  next
    case 2
    from google_set [OF 2 assms(2)] show ?thesis
      by (auto dest: google_listing_valid)
  next
    case 3
    from crawl_set [OF 3 [unfolded scrape_thomson_local_def] assms(2)] show ?thesis
      by (auto simp add: thomson_site_def dest: thomson_listing_valid)
  next
    case 4
    from crawl_set [OF 4 [unfolded scrape_freeindex_def] assms(2)] show ?thesis
      by (auto simp add: freeindex_site_def dest: freeindex_listing_valid)
  next
    case 5
    from crawl_set [OF 5 [unfolded scrape_yelp_uk_def] assms(2)] show ?thesis
      by (auto simp add: yelp_site_def dest: yelp_listing_valid)
  qed
qed

lemma sources_loop_set:
  "b \<in> set (sources_loop w q l mp ss acc) \<Longrightarrow>
     b \<in> set acc \<or> (\<exists>s\<in>set ss. \<exists>bs log. source_methods w q l mp s = Some (Inr bs, log) \<and> b \<in> set bs)"
proof (induction ss arbitrary: acc)
  case Nil
  then show ?case by simp
next
  case (Cons s ss)
  show ?case
  proof (cases "source_methods w q l mp s")
    case None
    with Cons show ?thesis by auto
  next
    case (Some run)
    obtain r log where run: "run = (r, log)" by (cases run)
    show ?thesis
    proof (cases r)
      case (Inl e)
      with Some run Cons show ?thesis by auto
    next
      case (Inr results)
      with Some run Cons.prems
      have "b \<in> set (sources_loop w q l mp ss (acc @ results))" by simp
      from Cons.IH [OF this] Some run Inr show ?thesis by auto
    qed
  qed
qed

lemma all_businesses_record:
  assumes "b \<in> set (all_businesses w q l srcs mp)"
  shows "name b \<noteq> [] \<and> valid_record b \<and> normalized_name b \<noteq> []"
proof -
  from assms sources_loop_set [of b w q l mp _ "[]"]
  obtain s bs log where "source_methods w q l mp s = Some (Inr bs, log)" "b \<in> set bs"
    unfolding all_businesses_def by fastforce
  from adapter_record [OF this] have nv: "name b \<noteq> []" "valid_record b" by auto
  then obtain c where "c \<in> set (name b)" "\<not> is_space c"
    by (auto simp add: valid_record_def)
  then have "normalized_name b \<noteq> []" by (rule normalized_name_nonempty)
  with nv show ?thesis by simp
qed

lemma dedup_loop_set:
  "b \<in> set (dedup_loop xs seen acc) \<Longrightarrow> b \<in> set acc \<or> (b \<in> set xs \<and> normalized_name b \<noteq> [])"
proof (induction xs arbitrary: seen acc)
  case Nil
  then show ?case by simp
next
  case (Cons x xs)
  show ?case
  proof (cases "normalized_name x \<noteq> [] \<and> normalized_name x \<notin> seen")
    case True
    with Cons.prems
    have "b \<in> set (dedup_loop xs (insert (normalized_name x) seen) (acc @ [x]))"
      by simp
    from Cons.IH [OF this] True show ?thesis by auto
  next
    case False
    with Cons.prems have "b \<in> set (dedup_loop xs seen acc)" by auto
    from Cons.IH [OF this] show ?thesis by auto
  qed
qed

section \<open>Deduplication by position\<close>

lemma all_less_Suc_shift:
  "(\<forall>j<Suc i. P j) \<longleftrightarrow> P 0 \<and> (\<forall>j<i. P (Suc j))"
  by (auto simp add: less_Suc_eq_0_disj)

lemma dedup_loop_index:
  "dedup_loop xs seen acc =
     acc @ map (nth xs)
       (filter (\<lambda>i. normalized_name (xs ! i) \<noteq> [] \<and> normalized_name (xs ! i) \<notin> seen
                     \<and> (\<forall>j<i. normalized_name (xs ! j) \<noteq> normalized_name (xs ! i)))
          [0 ..< length xs])"
proof -
  define Q where "Q = (\<lambda>seen ys i. normalized_name (ys ! i) \<noteq> [] \<and> normalized_name (ys ! i) \<notin> seen
                \<and> (\<forall>j<i. normalized_name (ys ! j) \<noteq> normalized_name (ys ! i)))"
  have "dedup_loop xs seen acc = acc @ map (nth xs) (filter (Q seen xs) [0 ..< length xs])"
  proof (induction xs arbitrary: seen acc)
    case Nil
    then show ?case by simp
  next
    case (Cons x xs)
    let ?k = normalized_name
    have upt: "[0 ..< length (x # xs)] = 0 # map Suc [0 ..< length xs]"
      by (simp add: upt_conv_Cons map_Suc_upt del: upt_Suc)
    have Q0: "Q seen (x # xs) 0 \<longleftrightarrow> ?k x \<noteq> [] \<and> ?k x \<notin> seen"
      by (simp add: Q_def)
    have QS: "Q seen (x # xs) (Suc i)
                \<longleftrightarrow> ?k (xs ! i) \<noteq> [] \<and> ?k (xs ! i) \<notin> seen \<and> ?k x \<noteq> ?k (xs ! i)
                     \<and> (\<forall>j<i. ?k (xs ! j) \<noteq> ?k (xs ! i))" for i
      by (simp add: Q_def all_less_Suc_shift)
    have tail: "map (nth (x # xs)) (filter (Q seen (x # xs)) (map Suc is))
                  = map (nth xs) (filter (\<lambda>i. Q seen (x # xs) (Suc i)) is)" for "is"
      by (simp add: filter_map o_def)
    show ?case
    proof (cases "?k x \<noteq> [] \<and> ?k x \<notin> seen")
      case True
      have "Q (insert (?k x) seen) xs i \<longleftrightarrow> Q seen (x # xs) (Suc i)" for i
        unfolding QS by (auto simp add: Q_def)
      then have eq: "Q (insert (?k x) seen) xs = (\<lambda>i. Q seen (x # xs) (Suc i))"
        by blast
      have "dedup_loop (x # xs) seen acc
              = dedup_loop xs (insert (?k x) seen) (acc @ [x])"
        using True by simp
      also have "\<dots> = (acc @ [x]) @ map (nth xs) (filter (Q (insert (?k x) seen) xs) [0 ..< length xs])"
        by (rule Cons.IH)
      also have "\<dots> = acc @ map (nth (x # xs)) (filter (Q seen (x # xs)) (0 # map Suc [0 ..< length xs]))"
        using True by (simp add: Q0 tail eq del: upt_Suc)
      finally show ?thesis by (simp only: upt)
    next
      case False
      have "Q seen xs i \<longleftrightarrow> Q seen (x # xs) (Suc i)" for i
        unfolding QS using False by (auto simp add: Q_def)
      then have eq: "Q seen xs = (\<lambda>i. Q seen (x # xs) (Suc i))"
        by blast
      have "dedup_loop (x # xs) seen acc = dedup_loop xs seen acc"
        using False by auto
      also have "\<dots> = acc @ map (nth xs) (filter (Q seen xs) [0 ..< length xs])"
        by (rule Cons.IH)
      also have "\<dots> = acc @ map (nth (x # xs)) (filter (Q seen (x # xs)) (0 # map Suc [0 ..< length xs]))"
        using False by (simp add: Q0 tail eq del: upt_Suc)
      finally show ?thesis by (simp only: upt)
    qed
  qed
  then show ?thesis by (simp only: Q_def)
qed

lemma search_index:
  "search w q l srcs mp =
     (let all = all_businesses w q l srcs mp
      in map (nth all)
           (filter (\<lambda>i. \<forall>j<i. normalized_name (all ! j) \<noteq> normalized_name (all ! i))
              [0 ..< length all]))"
proof -
  let ?all = "all_businesses w q l srcs mp"
  have "normalized_name (?all ! i) \<noteq> []" if "i < length ?all" for i
    using all_businesses_record [of "?all ! i" w q l srcs mp] that by simp
  then have "filter (\<lambda>i. normalized_name (?all ! i) \<noteq> [] \<and> normalized_name (?all ! i) \<notin> {}
                     \<and> (\<forall>j<i. normalized_name (?all ! j) \<noteq> normalized_name (?all ! i)))
                [0 ..< length ?all]
           = filter (\<lambda>i. \<forall>j<i. normalized_name (?all ! j) \<noteq> normalized_name (?all ! i))
                [0 ..< length ?all]"
    by (intro filter_cong) auto
  then show ?thesis
    unfolding search_def Let_def dedup_loop_index by simp
qed

section \<open>Pages requested by the paginated adapters\<close>






lemma google_single_request: "snd (scrape_google_maps w q l n) = [Google_url q l]"
  by (simp add: scrape_google_maps_def split: sum.splits)

lemma crawl_empty_page:
  assumes "crawl w a pages acc log = (r, log')"
    and "length log + i < length log'"
    and "page_listings w a (pages ! i) = Inr []" and "stop_on_empty a"
  shows "log' = log @ map (url_of a) (take (Suc i) pages)
         \<and> r = Inr (acc @ concat (map (page_records w a) (take i pages)))"
  using assms
proof (induction pages arbitrary: acc log i)
  case Nil
  then show ?case by simp
next
  case (Cons page pages)
  show ?case
  proof (cases i)
    case 0
    with Cons.prems show ?thesis by simp
  next
    case (Suc j)
    have cont: "\<exists>ls. page_listings w a page = Inr ls \<and> \<not> (stop_on_empty a \<and> ls = [])"
    proof (rule ccontr)
      assume "\<not> ?thesis"
      with Cons.prems(1) have "log' = log @ [url_of a page]"
        by (auto split: sum.splits if_splits)
      with Cons.prems(2) Suc show False by simp
    qed
    then obtain ls where ls: "page_listings w a page = Inr ls" "\<not> (stop_on_empty a \<and> ls = [])"
      by blast
    with Cons.prems(1)
    have run: "crawl w a pages (listings_loop (parse a) ls acc) (log @ [url_of a page]) = (r, log')"
      by auto
    have "length (log @ [url_of a page]) + j < length log'"
      using Cons.prems(2) Suc by simp
    moreover have "page_listings w a (pages ! j) = Inr []"
      using Cons.prems(3) Suc by simp
    ultimately have "log' = (log @ [url_of a page]) @ map (url_of a) (take (Suc j) pages)
        \<and> r = Inr (listings_loop (parse a) ls acc @ concat (map (page_records w a) (take j pages)))"
      using Cons.prems(4) by (intro Cons.IH [OF run])
    moreover have "listings_loop (parse a) ls acc = acc @ page_records w a page"
      using ls(1) listings_loop_acc [of "parse a" ls acc] by (simp add: page_records_def)
    ultimately show ?thesis using Suc by simp
  qed
qed

section \<open>The sample pages, run\<close>

lemma source_methods_known:
  "source_methods w q l mp ''yell'' = Some (scrape_yell w q l mp)"
  "source_methods w q l mp ''google'' = Some (scrape_google_maps w q l (mp * 10))"
  "source_methods w q l mp ''thomson'' = Some (scrape_thomson_local w q l mp)"
  "source_methods w q l mp ''freeindex'' = Some (scrape_freeindex w q l mp)"
  "source_methods w q l mp ''yelp'' = Some (scrape_yelp_uk w q l mp)"
  by (simp_all add: source_methods_def)

lemma demo_yell:
  "scrape_yell demo_web ''plumbers'' ''Leeds'' 2 =
     (Inr [abc_yell, smith_yell],
      [Yell_url ''plumbers'' ''Leeds'' 1, Yell_url ''plumbers'' ''Leeds'' 2])"
  by code_simp

lemma demo_freeindex:
  "scrape_freeindex demo_web ''plumbers'' ''Leeds'' 2 =
     (Inr [abc_freeindex, drains_freeindex],
      [Freeindex_url ''plumbers'' ''Leeds'' 1, Freeindex_url ''plumbers'' ''Leeds'' 2])"
  by code_simp

lemma demo_thomson:
  "scrape_thomson_local demo_web ''plumbers'' ''Leeds'' 2 =
     (Inl RuntimeError, [Thomson_url ''plumbers'' ''Leeds'' 1])"
  by code_simp

lemma acme_runs:
  "scrape_yell acme_web ''acme'' ''York'' 1 = (Inr [acme_yell], [Yell_url ''acme'' ''York'' 1])"
  "scrape_freeindex acme_web ''acme'' ''York'' 1 =
     (Inr [acme_freeindex], [Freeindex_url ''acme'' ''York'' 1])"
  by code_simp+

lemma sample_names:
  "normalized_name acme_yell = ''acme ltd''"
  "normalized_name acme_freeindex = ''acme ltd''"
  "normalized_name abc_yell = ''abc plumbing''"
  "normalized_name smith_yell = ''j smith''"
  "normalized_name abc_freeindex = ''abc plumbing''"
  "normalized_name drains_freeindex = ''leeds drains''"
  by code_simp+

section \<open>Claims about the orchestrator\<close>

lemma all_businesses_two:
  assumes "source_methods w q l mp s1 = Some (Inr xs, log1)"
    and "source_methods w q l mp s2 = Some (r, log2)"
  shows "all_businesses w q l (Some [s1, s2]) mp = xs @ (case r of Inl e \<Rightarrow> [] | Inr ys \<Rightarrow> ys)"
    and "all_businesses w q l (Some [s2, s1]) mp = (case r of Inl e \<Rightarrow> [] | Inr ys \<Rightarrow> ys) @ xs"
  using assms by (auto simp add: all_businesses_def split: sum.splits)

text \<open>
  C1. \<open>search\<close> returns the collected records at the positions where a normalized name
  (lower case, trimmed) occurs for the first time, in the order of the collected list:
  the first record of each normalized name is kept and every later one with that name is
  dropped, whatever its source. In particular, when two sources return one record each
  and the two normalized names agree, the result is the one record of the source that
  was run first.
\<close>

theorem search_keeps_first_of_each_name:
  "search w q l srcs mp =
     (let all = all_businesses w q l srcs mp
      in map (nth all)
           (filter (\<lambda>i. \<forall>j<i. normalized_name (all ! j) \<noteq> normalized_name (all ! i))
              [0 ..< length all]))
   \<and> (source_methods w q l mp s1 = Some (Inr [a], log1)
        \<and> source_methods w q l mp s2 = Some (Inr [b], log2)
        \<and> normalized_name a = normalized_name b
      \<longrightarrow> all_businesses w q l (Some [s1, s2]) mp = [a, b]
          \<and> search w q l (Some [s1, s2]) mp = [a])"
proof (intro conjI impI)
  show "search w q l srcs mp =
     (let all = all_businesses w q l srcs mp
      in map (nth all)
           (filter (\<lambda>i. \<forall>j<i. normalized_name (all ! j) \<noteq> normalized_name (all ! i))
              [0 ..< length all]))"
    by (rule search_index)
next
  assume h: "source_methods w q l mp s1 = Some (Inr [a], log1)
        \<and> source_methods w q l mp s2 = Some (Inr [b], log2)
        \<and> normalized_name a = normalized_name b"
  then show all: "all_businesses w q l (Some [s1, s2]) mp = [a, b]"
    using all_businesses_two(1) [of w q l mp s1 "[a]" log1 s2 "Inr [b]" log2] by simp
  have "a \<in> set (all_businesses w q l (Some [s1, s2]) mp)"
    unfolding all by simp
  then have "normalized_name a \<noteq> []"
    by (simp add: all_businesses_record)
  with h show "search w q l (Some [s1, s2]) mp = [a]"
    unfolding search_def all by simp
qed

theorem search_keeps_first_of_each_name_witness:
  "source_methods acme_web ''acme'' ''York'' 1 ''yell''
     = Some (Inr [acme_yell], [Yell_url ''acme'' ''York'' 1])
   \<and> source_methods acme_web ''acme'' ''York'' 1 ''freeindex''
     = Some (Inr [acme_freeindex], [Freeindex_url ''acme'' ''York'' 1])
   \<and> name acme_yell = ''ACME LTD'' \<and> name acme_freeindex = ''acme ltd''
   \<and> normalized_name acme_yell = normalized_name acme_freeindex
   \<and> search acme_web ''acme'' ''York'' (Some [''yell'', ''freeindex'']) 1 = [acme_yell]
   \<and> search acme_web ''acme'' ''York'' (Some [''freeindex'', ''yell'']) 1 = [acme_freeindex]"
proof -
  have y: "source_methods acme_web ''acme'' ''York'' 1 ''yell''
             = Some (Inr [acme_yell], [Yell_url ''acme'' ''York'' 1])"
    and f: "source_methods acme_web ''acme'' ''York'' 1 ''freeindex''
             = Some (Inr [acme_freeindex], [Freeindex_url ''acme'' ''York'' 1])"
    by (simp_all add: source_methods_known acme_runs)
  have n: "normalized_name acme_yell = normalized_name acme_freeindex"
    by (simp add: sample_names)
  have 1: "search acme_web ''acme'' ''York'' (Some [''yell'', ''freeindex'']) 1 = [acme_yell]"
    by (rule search_keeps_first_of_each_name [THEN conjunct2, THEN mp, THEN conjunct2])
      (intro conjI, rule y, rule f, rule n)
  have 2: "search acme_web ''acme'' ''York'' (Some [''freeindex'', ''yell'']) 1 = [acme_freeindex]"
    by (rule search_keeps_first_of_each_name [THEN conjunct2, THEN mp, THEN conjunct2])
      (intro conjI, rule f, rule y, rule n [symmetric])
  show ?thesis using y f n 1 2
    by (simp add: acme_yell_def acme_freeindex_def new_business_def)
qed

text \<open>
  C2. A source whose adapter raises adds nothing and stops nothing: the collected list
  and the result of \<open>search\<close> are those of the same call without that source. When one
  source raises and another returns two records of different normalized names, the result
  is exactly these two records, whichever of the two sources is named first.
\<close>

theorem failing_source_is_passed_over:
  "(source_methods w q l mp s = Some (Inl e, log)
      \<longrightarrow> all_businesses w q l (Some (xs @ s # ys)) mp = all_businesses w q l (Some (xs @ ys)) mp
          \<and> search w q l (Some (xs @ s # ys)) mp = search w q l (Some (xs @ ys)) mp)
   \<and> (source_methods w q l mp s = Some (Inl e, log)
        \<and> source_methods w q l mp s' = Some (Inr [r1, r2], log')
        \<and> normalized_name r1 \<noteq> normalized_name r2
      \<longrightarrow> search w q l (Some [s, s']) mp = [r1, r2]
          \<and> search w q l (Some [s', s]) mp = [r1, r2])"
proof (intro conjI impI)
  assume h: "source_methods w q l mp s = Some (Inl e, log)"
  then have "sources_loop w q l mp (s # ys) acc = sources_loop w q l mp ys acc" for acc
    by simp
  then show "all_businesses w q l (Some (xs @ s # ys)) mp = all_businesses w q l (Some (xs @ ys)) mp"
    and "search w q l (Some (xs @ s # ys)) mp = search w q l (Some (xs @ ys)) mp"
    by (simp_all add: all_businesses_def search_def sources_loop_append)
next
  assume h: "source_methods w q l mp s = Some (Inl e, log)
        \<and> source_methods w q l mp s' = Some (Inr [r1, r2], log')
        \<and> normalized_name r1 \<noteq> normalized_name r2"
  then have all: "all_businesses w q l (Some [s, s']) mp = [r1, r2]"
    "all_businesses w q l (Some [s', s]) mp = [r1, r2]"
    using all_businesses_two [of w q l mp s' "[r1, r2]" log' s "Inl e" log] by simp_all
  have "r1 \<in> set (all_businesses w q l (Some [s, s']) mp)"
    "r2 \<in> set (all_businesses w q l (Some [s, s']) mp)"
    unfolding all by simp_all
  then have "normalized_name r1 \<noteq> []" "normalized_name r2 \<noteq> []"
    by (simp_all add: all_businesses_record)
  with h show "search w q l (Some [s, s']) mp = [r1, r2]"
    and "search w q l (Some [s', s]) mp = [r1, r2]"
    unfolding search_def all by auto
qed

theorem failing_source_is_passed_over_witness:
  "source_methods demo_web ''plumbers'' ''Leeds'' 2 ''thomson''
     = Some (Inl RuntimeError, [Thomson_url ''plumbers'' ''Leeds'' 1])
   \<and> source_methods demo_web ''plumbers'' ''Leeds'' 2 ''freeindex''
     = Some (Inr [abc_freeindex, drains_freeindex],
             [Freeindex_url ''plumbers'' ''Leeds'' 1, Freeindex_url ''plumbers'' ''Leeds'' 2])
   \<and> normalized_name abc_freeindex \<noteq> normalized_name drains_freeindex
   \<and> search demo_web ''plumbers'' ''Leeds'' (Some [''thomson'', ''freeindex'']) 2
       = [abc_freeindex, drains_freeindex]
   \<and> search demo_web ''plumbers'' ''Leeds'' (Some [''freeindex'', ''thomson'']) 2
       = [abc_freeindex, drains_freeindex]
   \<and> search demo_web ''plumbers'' ''Leeds'' (Some ([''freeindex''] @ ''thomson'' # [''yell''])) 2
       = search demo_web ''plumbers'' ''Leeds'' (Some ([''freeindex''] @ [''yell''])) 2"
proof -
  have t: "source_methods demo_web ''plumbers'' ''Leeds'' 2 ''thomson''
             = Some (Inl RuntimeError, [Thomson_url ''plumbers'' ''Leeds'' 1])"
    and f: "source_methods demo_web ''plumbers'' ''Leeds'' 2 ''freeindex''
             = Some (Inr [abc_freeindex, drains_freeindex],
                 [Freeindex_url ''plumbers'' ''Leeds'' 1, Freeindex_url ''plumbers'' ''Leeds'' 2])"
    by (simp_all add: source_methods_known demo_thomson demo_freeindex)
  have n: "normalized_name abc_freeindex \<noteq> normalized_name drains_freeindex"
    by (simp add: sample_names)
  from failing_source_is_passed_over
    [of demo_web "''plumbers''" "''Leeds''" 2 "''thomson''" RuntimeError
      "[Thomson_url ''plumbers'' ''Leeds'' 1]" "[''freeindex'']" "[''yell'']" "''freeindex''"
      abc_freeindex drains_freeindex
      "[Freeindex_url ''plumbers'' ''Leeds'' 1, Freeindex_url ''plumbers'' ''Leeds'' 2]"]
    t f n
  show ?thesis by simp
qed

text \<open>
  C10. A source identifier that is not one of the five known ones is skipped: the list
  of collected records and the result of \<open>search\<close> are those of the same call without that
  identifier, so it adds no record, raises nothing, and the sources before and after it
  are run in their order.
\<close>

theorem unknown_source_skipped:
  assumes "s \<notin> {''yell'', ''google'', ''thomson'', ''freeindex'', ''yelp''}"
  shows "all_businesses w q l (Some (xs @ s # ys)) mp = all_businesses w q l (Some (xs @ ys)) mp
       \<and> search w q l (Some (xs @ s # ys)) mp = search w q l (Some (xs @ ys)) mp"
proof -
  from assms have "source_methods w q l mp s = None"
    by (simp add: known_sources)
  then have "sources_loop w q l mp (s # ys) acc = sources_loop w q l mp ys acc" for acc
    by simp
  then show ?thesis
    by (simp add: all_businesses_def search_def sources_loop_append)
qed

theorem unknown_source_skipped_witness:
  "''bing'' \<notin> {''yell'', ''google'', ''thomson'', ''freeindex'', ''yelp''}
   \<and> search demo_web ''plumbers'' ''Leeds'' (Some ([''freeindex''] @ ''bing'' # [''yell''])) 2
       = search demo_web ''plumbers'' ''Leeds'' (Some ([''freeindex''] @ [''yell''])) 2"
proof -
  have h: "''bing'' \<notin> {''yell'', ''google'', ''thomson'', ''freeindex'', ''yelp''}"
    by simp
  from unknown_source_skipped [OF h, of demo_web "''plumbers''" "''Leeds''" "[''freeindex'']" "[''yell'']" 2]
  show ?thesis using h by blast
qed

section \<open>Claims about the source adapters\<close>




text \<open>
  C4. On pages without listings \<open>scrape_yelp_uk\<close> requests the second page after the
  first, where \<open>scrape_yell\<close> stops after one request.
\<close>

theorem yelp_goes_on_after_empty_page:
  "snd (scrape_yelp_uk blank_web ''plumbers'' ''Leeds'' 2)
     = [Yelp_url ''plumbers'' ''Leeds'' 0, Yelp_url ''plumbers'' ''Leeds'' 10]
   \<and> snd (scrape_yell blank_web ''plumbers'' ''Leeds'' 2) = [Yell_url ''plumbers'' ''Leeds'' 1]"
  by (simp add: scrape_yelp_uk_def scrape_yell_def yelp_site_def yell_site_def blank_web_def
      page_listings_def bnd_def select_or_def upto.simps)

text \<open>
  C5. A listing adds a record to the result of its adapter exactly when it is read without
  an exception and the name read is not empty. So no record with an empty name is in the
  list an adapter returns, whichever of the five adapters it is, nor in what \<open>search\<close>
  returns; the loop that removes duplicates drops such a record on its own account, too.
\<close>

theorem empty_name_never_returned:
  "listings_loop P ls acc =
     acc @ concat (map (\<lambda>x. case P x of Inl e \<Rightarrow> []
                              | Inr b \<Rightarrow> if name b \<noteq> [] then [b] else []) ls)
   \<and> (source_methods w q l mp s = Some (Inr bs, log) \<longrightarrow> (\<forall>b\<in>set bs. name b \<noteq> []))
   \<and> (\<forall>b\<in>set (search w q l srcs mp). name b \<noteq> [])
   \<and> (\<forall>b\<in>set (dedup_loop xs {} []). name b \<noteq> [])"
proof (intro conjI impI ballI)
  show "listings_loop P ls acc =
     acc @ concat (map (\<lambda>x. case P x of Inl e \<Rightarrow> []
                              | Inr b \<Rightarrow> if name b \<noteq> [] then [b] else []) ls)"
    by (rule listings_loop_eq)
next
  fix b assume "source_methods w q l mp s = Some (Inr bs, log)" "b \<in> set bs"
  then show "name b \<noteq> []" by (simp add: adapter_record)
next
  fix b assume "b \<in> set (search w q l srcs mp)"
  then have "normalized_name b \<noteq> []"
    unfolding search_def by (auto dest: dedup_loop_set)
  then show "name b \<noteq> []" using normalized_name_empty by blast
next
  fix b assume "b \<in> set (dedup_loop xs {} [])"
  then have "normalized_name b \<noteq> []"
    by (auto dest: dedup_loop_set)
  then show "name b \<noteq> []" using normalized_name_empty by blast
qed

lemma nameless_listing:
  "yell_listing (Element [] [(''.businessCapsule--phone'', [Element ''0113 245 6789'' []])])
     = Inr ((new_business ''yell.com'')\<lparr>phone := ''0113 245 6789''\<rparr>)"
  by code_simp

theorem empty_name_never_returned_witness:
  "yell_listing (Element [] [(''.businessCapsule--phone'', [Element ''0113 245 6789'' []])])
     = Inr ((new_business ''yell.com'')\<lparr>phone := ''0113 245 6789''\<rparr>)
   \<and> listings_loop yell_listing
        [Element [] [(''.businessCapsule--phone'', [Element ''0113 245 6789'' []])]] [abc_yell]
       = [abc_yell]
   \<and> source_methods demo_web ''plumbers'' ''Leeds'' 2 ''yell''
       = Some (Inr [abc_yell, smith_yell],
               [Yell_url ''plumbers'' ''Leeds'' 1, Yell_url ''plumbers'' ''Leeds'' 2])
   \<and> list_all (\<lambda>b. name b \<noteq> []) [abc_yell, smith_yell]
   \<and> list_all (\<lambda>b. name b \<noteq> []) (search demo_web ''plumbers'' ''Leeds'' None 2)
   \<and> dedup_loop [(new_business ''yell.com'')\<lparr>phone := ''0113 245 6789''\<rparr>, smith_yell] {} []
       = [smith_yell]"
proof -
  note inst = empty_name_never_returned
    [of yell_listing
      "[Element [] [(''.businessCapsule--phone'', [Element ''0113 245 6789'' []])]]"
      "[abc_yell]" demo_web "''plumbers''" "''Leeds''" 2 "''yell''" "[abc_yell, smith_yell]"
      "[Yell_url ''plumbers'' ''Leeds'' 1, Yell_url ''plumbers'' ''Leeds'' 2]" None
      "[(new_business ''yell.com'')\<lparr>phone := ''0113 245 6789''\<rparr>, smith_yell]"]
  have y: "source_methods demo_web ''plumbers'' ''Leeds'' 2 ''yell''
       = Some (Inr [abc_yell, smith_yell],
               [Yell_url ''plumbers'' ''Leeds'' 1, Yell_url ''plumbers'' ''Leeds'' 2])"
    by (simp add: source_methods_known demo_yell)
  have 1: "listings_loop yell_listing
        [Element [] [(''.businessCapsule--phone'', [Element ''0113 245 6789'' []])]] [abc_yell]
       = [abc_yell]"
    using inst [THEN conjunct1] by (simp add: nameless_listing new_business_def)
  have 2: "list_all (\<lambda>b. name b \<noteq> []) [abc_yell, smith_yell]"
    using inst [THEN conjunct2, THEN conjunct1] y by (simp add: list_all_iff)
  have 3: "list_all (\<lambda>b. name b \<noteq> []) (search demo_web ''plumbers'' ''Leeds'' None 2)"
    using inst [THEN conjunct2, THEN conjunct2, THEN conjunct1] by (simp add: list_all_iff)
  have 4: "dedup_loop [(new_business ''yell.com'')\<lparr>phone := ''0113 245 6789''\<rparr>, smith_yell] {} []
       = [smith_yell]"
    by (simp add: normalized_name_empty new_business_def sample_names)
  from nameless_listing 1 y 2 3 4 show ?thesis by blast
qed

section \<open>Claims about the text extractors\<close>






text \<open>
  C8, with the noise rule as the program has it. \<open>_extract_emails\<close> returns some list; in
  every list it may return, a text occurs once when it is a match of the email pattern in
  the input that is not noise, however often it is matched there, and does not occur
  otherwise; so any two results hold the same addresses. A match is noise exactly when its
  lower-case form contains one of \<open>example.\<close>, \<open>domain.\<close>, \<open>email.\<close>, \<open>.png\<close>, \<open>.jpg\<close>,
  \<open>.gif\<close>, \<open>sentry.io\<close> anywhere, the part before the \<open>@\<close> included. Every match is of
  the grammar \<open>local@domain.tld\<close> and a piece of the input.
\<close>

theorem extract_emails_set_of_matches:
  "(\<exists>ys. extract_emails s ys)
   \<and> (extract_emails s ys
      \<longrightarrow> count_list ys e
            = (if e \<in> set (findall email_pattern s) \<and> \<not> is_noise e then 1 else 0))
   \<and> (extract_emails s ys \<and> extract_emails s zs \<longrightarrow> set ys = set zs)
   \<and> (is_noise e \<longleftrightarrow> (\<exists>x\<in>set noise_markers. \<exists>u v. lower e = u @ x @ v))
   \<and> (e \<in> set (findall email_pattern s) \<longrightarrow> accepts email_pattern e \<and> py_in e s)"
proof (intro conjI impI)
  show "\<exists>ys. extract_emails s ys"
    using extract_emails_exists by blast
  show "is_noise e \<longleftrightarrow> (\<exists>x\<in>set noise_markers. \<exists>u v. lower e = u @ x @ v)"
    by (rule is_noise_iff)
next
  assume "extract_emails s ys"
  then show "count_list ys e
            = (if e \<in> set (findall email_pattern s) \<and> \<not> is_noise e then 1 else 0)"
    by (rule extract_emails_count)
next
  assume "extract_emails s ys \<and> extract_emails s zs"
  then show "set ys = set zs" by (simp add: extract_emails_def)
next
  assume "e \<in> set (findall email_pattern s)"
  then show "accepts email_pattern e" and "py_in e s"
    by (simp_all add: findall_sub)
qed

lemma sample_emails:
  "findall email_pattern ''a@b.org, A@b.org; a@b.org x@example.com''
     = [''a@b.org'', ''A@b.org'', ''a@b.org'', ''x@example.com'']"
  "is_noise ''x@example.com''" "\<not> is_noise ''a@b.org''" "\<not> is_noise ''A@b.org''"
  "extract_emails ''a@b.org, A@b.org; a@b.org x@example.com'' [''A@b.org'', ''a@b.org'']"
  "extract_emails ''a@b.org, A@b.org; a@b.org x@example.com'' [''a@b.org'', ''A@b.org'']"
  by code_simp+

theorem extract_emails_set_of_matches_witness:
  "findall email_pattern ''a@b.org, A@b.org; a@b.org x@example.com''
     = [''a@b.org'', ''A@b.org'', ''a@b.org'', ''x@example.com'']
   \<and> extract_emails ''a@b.org, A@b.org; a@b.org x@example.com'' [''A@b.org'', ''a@b.org'']
   \<and> extract_emails ''a@b.org, A@b.org; a@b.org x@example.com'' [''a@b.org'', ''A@b.org'']
   \<and> count_list [''A@b.org'', ''a@b.org''] ''a@b.org'' = 1
   \<and> is_noise ''x@example.com''
   \<and> count_list [''A@b.org'', ''a@b.org''] ''x@example.com'' = 0
   \<and> accepts email_pattern ''a@b.org''"
proof -
  let ?s = "''a@b.org, A@b.org; a@b.org x@example.com''"
  note r = sample_emails(5) and m = sample_emails(1)
  have in1: "''a@b.org'' \<in> set (findall email_pattern ?s)"
    and in2: "''x@example.com'' \<in> set (findall email_pattern ?s)"
    unfolding m by simp_all
  from extract_emails_set_of_matches [of ?s "[''A@b.org'', ''a@b.org'']" "''a@b.org''",
      THEN conjunct2, THEN conjunct1] r in1 sample_emails(3)
  have 1: "count_list [''A@b.org'', ''a@b.org''] ''a@b.org'' = 1"
    by (simp only: if_True HOL.simp_thms)
  from extract_emails_set_of_matches [of ?s "[''A@b.org'', ''a@b.org'']" "''x@example.com''",
      THEN conjunct2, THEN conjunct1] r sample_emails(2)
  have 2: "count_list [''A@b.org'', ''a@b.org''] ''x@example.com'' = 0"
    by (simp only: if_False HOL.simp_thms)
  from extract_emails_set_of_matches [of ?s _ "''a@b.org''",
      THEN conjunct2, THEN conjunct2, THEN conjunct2, THEN conjunct2] in1
  have 3: "accepts email_pattern ''a@b.org''"
    by blast
  from m sample_emails(5,6,2) 1 2 3 show ?thesis by blast
qed

theorem address_with_marker_in_local_part_counterexample:
  "findall email_pattern ''example.person@gmail.com'' = [''example.person@gmail.com'']
   \<and> domain_of ''example.person@gmail.com'' = ''gmail.com''
   \<and> \<not> spec_noise_domain ''example.person@gmail.com''
   \<and> extract_emails ''example.person@gmail.com'' []
   \<and> \<not> extract_emails ''example.person@gmail.com'' [''example.person@gmail.com'']"
  by code_simp

section \<open>Claims about the request boundary\<close>

text \<open>
  C7. When the body is an object with a query and a location, the handler answers with
  what \<open>search\<close> returns for a page budget of \<open>min v 5\<close>, where \<open>v\<close> is the \<open>max_pages\<close> of
  the request, and of 2 when the request has none.
\<close>

theorem max_pages_capped:
  assumes "content_length req = Length n" and "read_json req n = Inr data"
    and "query data = Some q" and "location data = Some l" and "q \<noteq> []" and "l \<noteq> []"
  shows "do_POST w req =
           Responds \<lparr>status = 200,
                     headers = [(''Content-type'', ''application/json''),
                                (''Access-Control-Allow-Origin'', ''*'')],
                     content =
                       (let srcs = (case sources data of
                                      None \<Rightarrow> [''yell'', ''freeindex''] | Some v \<Rightarrow> v);
                            businesses = search w q l (Some srcs)
                              (case max_pages data of None \<Rightarrow> 2 | Some v \<Rightarrow> min v 5)
                        in Result_body businesses (length businesses) q l srcs)\<rparr>"
  using assms by (simp add: do_POST_def Let_def split: option.splits)

theorem max_pages_capped_witness:
  "content_length demo_request = Length 74
   \<and> map_sum id max_pages (read_json demo_request 74) = Inr (Some 100)
   \<and> do_POST demo_web demo_request =
         Responds \<lparr>status = 200,
                   headers = [(''Content-type'', ''application/json''),
                              (''Access-Control-Allow-Origin'', ''*'')],
                   content =
                     (let businesses = search demo_web ''plumbers'' ''Leeds'' (Some [''yell'']) 5
                      in Result_body businesses (length businesses) ''plumbers'' ''Leeds''
                           [''yell''])\<rparr>"
proof -
  let ?data = "\<lparr>query = Some ''plumbers'', location = Some ''Leeds'',
                 sources = Some [''yell''], max_pages = Some 100\<rparr>"
  have h1: "content_length demo_request = Length 74"
    and h2: "read_json demo_request 74 = Inr ?data"
    by (simp_all add: demo_request_def)
  have h3: "query ?data = Some ''plumbers''" and h4: "location ?data = Some ''Leeds''"
    and h5: "''plumbers'' \<noteq> []" and h6: "''Leeds'' \<noteq> []"
    by simp_all
  from max_pages_capped [OF h1 h2 h3 h4 h5 h6, of demo_web] h1 h2 show ?thesis
    by (simp add: Let_def)
qed

text \<open>
  Once the header has given a length, the handler always answers: with status 500 and
  the exception when the body cannot be read as a JSON object, with 400 when the query or
  the location is missing or empty, with 200 otherwise.
\<close>

lemma do_POST_responds:
  assumes "content_length req = Length n"
  shows "\<exists>resp. do_POST w req = Responds resp
           \<and> (read_json req n = Inl e \<longrightarrow> status resp = 500 \<and> content resp = Error_body e)
           \<and> status resp \<in> {200, 400, 500}"
  using assms by (cases "read_json req n") (auto simp add: do_POST_def Let_def)

text \<open>
  C9. The header is read and turned into a number before the \<open>try\<close> block is entered. A
  request without a \<open>Content-Length\<close> header, or with one that is not a number, therefore
  gets no answer from the handler: the exception leaves \<open>do_POST\<close>.
\<close>

theorem missing_content_length_escapes:
  "do_POST w \<lparr>content_length = Missing, read_json = r\<rparr> = Escapes TypeError
   \<and> do_POST w \<lparr>content_length = Not_a_number, read_json = r\<rparr> = Escapes ValueError"
  by (simp add: do_POST_def)

end
